theory Spec2Isabelle
  imports Main "HOL-Library.Multiset"
begin

section \<open>Data model\<close>

text \<open>
  Go's \<open>error\<close> values.  A cancelled context reports \<open>context.Canceled\<close>, an expired
  one \<open>context.DeadlineExceeded\<close>; every other error (of a collector body or of the
  archive) is \<open>Err\<close> with its message.  A nil error is \<open>None :: err option\<close>.
\<close>

datatype err = Canceled | DeadlineExceeded | Err string

text \<open>Run-time panics of the Go program.\<close>

datatype panic = NilPointerDereference

text \<open>\<open>[]byte\<close>: a list of bytes (\<open>char\<close> is a byte).  The nil slice is \<open>None\<close>.\<close>

type_synonym bytes = string

text \<open>
  \<open>context.Context\<close> as the code uses it: the gRPC targeting metadata that
  \<open>client.WithNode\<close> sets, and the value of \<open>ctx.Err()\<close> (\<open>None\<close> while the context
  is live; \<open>ctx.Done()\<close> is ready exactly when it is not \<open>None\<close>).
\<close>

record "context" =
  ctx_node :: "string option"
  ctx_err :: "err option"

text \<open>
  Modelled from the spec: \<open>client.WithNode\<close> belongs to the Talos machinery client
  package, which is not under src/.  The spec says the context is annotated with a
  targeting identifier (which remote node to address).
\<close>

definition client_WithNode :: "context \<Rightarrow> string \<Rightarrow> context" where
  "client_WithNode c node = c\<lparr>ctx_node := Some node\<rparr>"

text \<open>
  \<open>bundle.Archive\<close> is an interface: the method table of its dynamic type, over the
  state \<open>'a\<close> of the object behind it.  Each method returns its error and the new state.
\<close>

record 'a Archive =
  Write :: "string \<Rightarrow> bytes \<Rightarrow> 'a \<Rightarrow> err option \<times> 'a"
  Close :: "'a \<Rightarrow> err option \<times> 'a"

text \<open>Opaque handles of the external clients and of the log writer.\<close>

datatype talos_client = TalosClientPtr nat
datatype kubernetes_clientset = ClientsetPtr nat
datatype io_writer = WriterPtr nat

text \<open>
  \<open>bundle.Options\<close>.  \<open>Progress\<close> is \<open>None\<close> for a nil channel and \<open>Some cap\<close> for a
  channel made with capacity \<open>cap\<close>; the channel's buffer lives in the run state below.
  \<open>Archive\<close> is required by the engine (a nil interface is outside this model).
\<close>

record 'a Options =
  TalosClient :: "talos_client option"
  KubernetesClient :: "kubernetes_clientset option"
  Archive :: "'a Archive"
  LogOutput :: "io_writer option"
  Progress :: "nat option"
  Nodes :: "string list"
  NumWorkers :: int

text \<open>\<open>bundle.Progress\<close>.\<close>

record Progress =
  Error :: "err option"
  Source :: string
  State :: string
  Total :: int

text \<open>
  \<open>collectors.Collect\<close> and \<open>collectors.Collector\<close>.  A body is a function of the
  context and the options it is called with; it returns the payload (\<open>None\<close> for nil)
  and the error.
\<close>

type_synonym 'a Collect = "context \<Rightarrow> 'a Options \<Rightarrow> bytes option \<times> err option"

record 'a Collector =
  collect :: "'a Collect"
  source :: string
  destinationPath :: string

definition Cluster :: string where
  "Cluster = ''cluster''"

definition NewCollector :: "string \<Rightarrow> 'a Collect \<Rightarrow> 'a Collector" where
  "NewCollector path c = \<lparr>collect = c, source = Cluster, destinationPath = path\<rparr>"

subsection \<open>Collector.Run, Source, String\<close>

text \<open>
  \<open>Run\<close> calls the body; a non-nil error is returned, a nil payload returns nil, and
  otherwise the payload is written to the archive of the options at the destination
  path.  The archive object's state is passed in and returned.
\<close>

definition Run :: "'a Collector \<Rightarrow> context \<Rightarrow> 'a Options \<Rightarrow> 'a \<Rightarrow> err option \<times> 'a" where
  "Run c cx options st =
     (case collect c cx options of
        (data, e) \<Rightarrow>
          (case e of
             Some e' \<Rightarrow> (Some e', st)
           | None \<Rightarrow>
               (case data of
                  None \<Rightarrow> (None, st)
                | Some d \<Rightarrow> Write (Archive options) (destinationPath c) d st)))"

text \<open>
  \<open>filepath.Join\<close> and \<open>filepath.Base\<close> of Go's standard library (Unix separator), which
  the collectors use for destination paths.  \<open>Clean\<close> works on the path's elements:
  empty and \<open>.\<close> elements are dropped, a \<open>..\<close> removes the element before it, or is
  kept at the start of a path that is not rooted, or is dropped at the root.
\<close>

primrec split_path :: "string \<Rightarrow> string list" where
  "split_path [] = [[]]"
| "split_path (c # cs) =
     (if c = CHR ''/'' then [] # split_path cs
      else (case split_path cs of [] \<Rightarrow> [[c]] | x # xs \<Rightarrow> (c # x) # xs))"

fun join_sep :: "string list \<Rightarrow> string" where
  "join_sep [] = []"
| "join_sep [x] = x"
| "join_sep (x # y # ys) = x @ ''/'' @ join_sep (y # ys)"

fun clean_elems :: "bool \<Rightarrow> string list \<Rightarrow> string list \<Rightarrow> string list" where
  "clean_elems rooted out [] = rev out"
| "clean_elems rooted out (e # es) =
     (if e = [] \<or> e = ''.'' then clean_elems rooted out es
      else if e = ''..'' then
        (case out of
           [] \<Rightarrow> if rooted then clean_elems rooted out es else clean_elems rooted [e] es
         | x # xs \<Rightarrow>
             if x = ''..'' then clean_elems rooted (e # out) es else clean_elems rooted xs es)
      else clean_elems rooted (e # out) es)"

definition filepath_Clean :: "string \<Rightarrow> string" where
  "filepath_Clean path =
     (case path of
        [] \<Rightarrow> ''.''
      | c # cs \<Rightarrow>
          (let rooted = (c = CHR ''/'');
               out = (if rooted then ''/'' else []) @ join_sep (clean_elems rooted [] (split_path path))
           in if out = [] then ''.'' else out))"

definition filepath_Join :: "string list \<Rightarrow> string" where
  "filepath_Join elem =
     (case dropWhile (\<lambda>e. e = []) elem of [] \<Rightarrow> [] | e # es \<Rightarrow> filepath_Clean (join_sep (e # es)))"

definition filepath_Base :: "string \<Rightarrow> string" where
  "filepath_Base path =
     (if path = [] then ''.''
      else (let stripped = rev (dropWhile (\<lambda>c. c = CHR ''/'') (rev path))
            in if stripped = [] then ''/''
               else rev (takeWhile (\<lambda>c. c \<noteq> CHR ''/'') (rev stripped))))"

definition String :: "'a Collector \<Rightarrow> string" where
  "String c = ''collect '' @ filepath_Base (destinationPath c)"

subsection \<open>WithFolder, WithNode, WithSource\<close>

text \<open>
  The three operations take a slice of \<open>*Collector\<close> and assign to the fields of the
  objects the pointers reach, one slice element after the other, and return the slice.
  The objects live in a store; a pointer is an address, and an address the store does not
  map (nil) panics when a field is read through it.
\<close>

type_synonym 'a store = "nat \<rightharpoonup> 'a Collector"

fun for_each :: "('a Collector \<Rightarrow> 'a Collector) \<Rightarrow> 'a store \<Rightarrow> nat list \<Rightarrow> panic + 'a store" where
  "for_each body h [] = Inr h"
| "for_each body h (p # ps) =
     (case h p of
        None \<Rightarrow> Inl NilPointerDereference
      | Some c \<Rightarrow> for_each body (h(p \<mapsto> body c)) ps)"

definition prefix_body :: "string \<Rightarrow> 'a Collector \<Rightarrow> 'a Collector" where
  "prefix_body path c = c\<lparr>destinationPath := filepath_Join [path, destinationPath c]\<rparr>"

definition scope_body :: "string \<Rightarrow> 'a Collector \<Rightarrow> 'a Collector" where
  "scope_body node c =
     c\<lparr>collect := (\<lambda>cx options. collect c (client_WithNode cx node) options),
       source := node,
       destinationPath := filepath_Join [node, destinationPath c]\<rparr>"

definition relabel_body :: "string \<Rightarrow> 'a Collector \<Rightarrow> 'a Collector" where
  "relabel_body src c = c\<lparr>source := src\<rparr>"

definition WithFolder :: "'a store \<Rightarrow> nat list \<Rightarrow> string \<Rightarrow> panic + ('a store \<times> nat list)" where
  "WithFolder h collectors path = map_sum id (\<lambda>h'. (h', collectors)) (for_each (prefix_body path) h collectors)"

definition WithNode :: "'a store \<Rightarrow> nat list \<Rightarrow> string \<Rightarrow> panic + ('a store \<times> nat list)" where
  "WithNode h collectors node = map_sum id (\<lambda>h'. (h', collectors)) (for_each (scope_body node) h collectors)"

definition WithSource :: "'a store \<Rightarrow> nat list \<Rightarrow> string \<Rightarrow> panic + ('a store \<times> nat list)" where
  "WithSource h collectors src = map_sum id (\<lambda>h'. (h', collectors)) (for_each (relabel_body src) h collectors)"

text \<open>
  The engine only reads the collectors: it receives the slice as the list of the objects
  its pointers reach, \<open>None\<close> for a nil pointer.
\<close>

definition deref :: "'a store \<Rightarrow> nat list \<Rightarrow> 'a Collector option list" where
  "deref h ps = map h ps"

section \<open>The dispatch engine\<close>

subsection \<open>calculateTotals\<close>

text \<open>Reading a Go map at a missing key gives the zero value.\<close>

definition lookup0 :: "(string \<rightharpoonup> int) \<Rightarrow> string \<Rightarrow> int" where
  "lookup0 m k = (case m k of None \<Rightarrow> 0 | Some v \<Rightarrow> v)"

text \<open>The loop of \<open>calculateTotals\<close>; \<open>col.Source()\<close> reads a field through the pointer.\<close>

fun calculateTotals_loop :: "(string \<rightharpoonup> int) \<Rightarrow> 'a Collector option list \<Rightarrow> panic + (string \<rightharpoonup> int)" where
  "calculateTotals_loop res [] = Inr res"
| "calculateTotals_loop res (None # cols) = Inl NilPointerDereference"
| "calculateTotals_loop res (Some col # cols) =
     calculateTotals_loop (res(source col \<mapsto> lookup0 res (source col) + 1)) cols"

definition calculateTotals :: "'a Collector option list \<Rightarrow> panic + (string \<rightharpoonup> int)" where
  "calculateTotals cols = calculateTotals_loop Map.empty cols"

subsection \<open>CreateSupportBundle\<close>

text \<open>
  One goroutine of the pool is at its \<open>select\<close> (\<open>WSelect\<close>), holds a collector it has
  received and not yet run (\<open>WRun\<close>), is blocked in \<open>channel.SendWithContext\<close> with a
  progress value (\<open>WSend\<close>), or has returned (\<open>WDone\<close> with its error).
\<close>

datatype 'a worker = WSelect | WRun "'a Collector" | WSend Progress | WDone "err option"

text \<open>
  The calling goroutine is in the loop that sends \<open>cols\<close> into \<open>tasks\<close> (the channel is
  open), has closed the channel and is in \<open>eg.Wait()\<close>, or has returned.
\<close>

datatype main_state = MSending | MWaiting | MReturned "err option"

text \<open>
  The state of one call.  \<open>opts\<close> is the \<open>Options\<close> object behind the caller's pointer,
  \<open>sink\<close> the state of the archive object, \<open>progress_buf\<close> the buffer of the progress
  channel and \<open>progress_recv\<close> what its reader has taken out.  \<open>eg_err\<close> is the first
  non-nil error the errgroup has recorded.  \<open>close_log\<close> lists the results of the calls
  of \<open>Archive.Close\<close>.  The context is the one \<open>errgroup.WithContext\<close> derives: during
  the life of the workers it is done exactly when the caller's context is, since a
  worker returns an error only after that.
\<close>

record 'a state =
  opts :: "'a Options"
  totals :: "string \<rightharpoonup> int"
  collectProgress :: bool
  ctx :: "context"
  pending :: "'a Collector option list"
  mainpc :: main_state
  workers :: "'a worker list"
  eg_err :: "err option"
  sink :: 'a
  progress_buf :: "Progress list"
  progress_recv :: "Progress list"
  close_log :: "err option list"

text \<open>
  The start of \<open>CreateSupportBundle\<close> up to the point where the workers exist:
  \<open>calculateTotals\<close> (which may panic), \<open>collectProgress\<close>, the assignment to
  \<open>options.NumWorkers\<close>, and one \<open>eg.Go\<close> for each \<open>i < options.NumWorkers\<close>.
\<close>

definition CreateSupportBundle_init ::
  "context \<Rightarrow> 'a Options \<Rightarrow> 'a \<Rightarrow> 'a Collector option list \<Rightarrow> panic + 'a state" where
  "CreateSupportBundle_init cx options st cols =
     (case calculateTotals cols of
        Inl p \<Rightarrow> Inl p
      | Inr t \<Rightarrow>
          (let options' = (if NumWorkers options = 0 then options\<lparr>NumWorkers := 1\<rparr> else options)
           in Inr \<lparr>opts = options', totals = t,
                   collectProgress = (case Progress options of None \<Rightarrow> False | Some cap \<Rightarrow> True),
                   ctx = cx, pending = cols, mainpc = MSending,
                   workers = replicate (nat (NumWorkers options')) WSelect,
                   eg_err = None, sink = st, progress_buf = [], progress_recv = [],
                   close_log = []\<rparr>))"

text \<open>
  What one goroutine, or the environment, does next.  \<open>Cancel\<close>: the context is
  cancelled or its deadline passes.  \<open>Recv i\<close>: worker \<open>i\<close> takes the next collector
  from the unbuffered channel (the sender moves on); a nil collector makes it return
  nil.  \<open>CloseTasks\<close>: the sender has sent everything and closes the channel.
  \<open>RecvClosed i\<close>: worker \<open>i\<close> receives nil from the closed channel and returns nil.
  \<open>CtxDone i\<close>: worker \<open>i\<close> takes the \<open>ctx.Done()\<close> case and returns \<open>ctx.Err()\<close>.
  \<open>RunTask i\<close>: worker \<open>i\<close> calls \<open>collector.Run\<close> and, when progress is collected,
  builds the progress value.  \<open>SendBuf i\<close>, \<open>SendDirect i\<close>: the progress channel takes
  the value into its buffer, or hands it to a waiting reader.  \<open>SendAbort i\<close>: the
  send is abandoned because the context is done, and the worker returns nil.
  \<open>Consume\<close>: the reader takes a value out of the buffer.  \<open>Wait\<close>: all workers have
  returned, \<open>eg.Wait()\<close> returns, and the function returns the recorded error or the
  result of \<open>options.Archive.Close()\<close>.
\<close>

datatype event =
  Cancel err | Recv nat | CloseTasks | RecvClosed nat | CtxDone nat | RunTask nat
  | SendBuf nat | SendDirect nat | SendAbort nat | Consume | Wait

definition worker_at :: "'a state \<Rightarrow> nat \<Rightarrow> 'a worker option" where
  "worker_at s i = (if i < length (workers s) then Some (workers s ! i) else None)"

definition set_worker :: "nat \<Rightarrow> 'a worker \<Rightarrow> 'a state \<Rightarrow> 'a state" where
  "set_worker i w s = s\<lparr>workers := (workers s)[i := w]\<rparr>"

definition is_done :: "'a worker \<Rightarrow> bool" where
  "is_done w = (case w of WDone e \<Rightarrow> True | _ \<Rightarrow> False)"

text \<open>
  Modelled from the spec: \<open>channel.SendWithContext\<close> (siderolabs/gen) is not under src/.
  The spec says delivery races against cancellation and is abandoned when the context is
  done; \<open>SendBuf\<close>, \<open>SendDirect\<close> and \<open>SendAbort\<close> are its three outcomes.
\<close>

definition after_run :: "'a state \<Rightarrow> 'a Collector \<Rightarrow> err option \<Rightarrow> 'a worker" where
  "after_run s collector e =
     (if \<not> collectProgress s then WSelect
      else WSend \<lparr>Error = e, Source = source collector, State = String collector,
                  Total = lookup0 (totals s) (source collector)\<rparr>)"

fun step :: "event \<Rightarrow> 'a state \<Rightarrow> 'a state option" where
  "step (Cancel e) s =
     (if ctx_err (ctx s) = None \<and> (e = Canceled \<or> e = DeadlineExceeded)
      then Some (s\<lparr>ctx := (ctx s)\<lparr>ctx_err := Some e\<rparr>\<rparr>) else None)"
| "step (Recv i) s =
     (if mainpc s = MSending then
        (case worker_at s i of
           Some WSelect \<Rightarrow>
             (case pending s of
                [] \<Rightarrow> None
              | t # ts \<Rightarrow>
                  Some (set_worker i (case t of None \<Rightarrow> WDone None | Some c \<Rightarrow> WRun c)
                         (s\<lparr>pending := ts\<rparr>)))
         | _ \<Rightarrow> None)
      else None)"
| "step CloseTasks s =
     (if mainpc s = MSending then
        (case pending s of [] \<Rightarrow> Some (s\<lparr>mainpc := MWaiting\<rparr>) | t # ts \<Rightarrow> None)
      else None)"
| "step (RecvClosed i) s =
     (if mainpc s \<noteq> MSending then
        (case worker_at s i of
           Some WSelect \<Rightarrow> Some (set_worker i (WDone None) s)
         | _ \<Rightarrow> None)
      else None)"
| "step (CtxDone i) s =
     (case ctx_err (ctx s) of
        None \<Rightarrow> None
      | Some e \<Rightarrow>
          (case worker_at s i of
             Some WSelect \<Rightarrow>
               Some (set_worker i (WDone (Some e))
                      (s\<lparr>eg_err := (case eg_err s of None \<Rightarrow> Some e | Some e0 \<Rightarrow> Some e0)\<rparr>))
           | _ \<Rightarrow> None))"
| "step (RunTask i) s =
     (case worker_at s i of
        Some (WRun c) \<Rightarrow>
          (case Run c (ctx s) (opts s) (sink s) of
             (e, st') \<Rightarrow> Some (set_worker i (after_run s c e) (s\<lparr>sink := st'\<rparr>)))
      | _ \<Rightarrow> None)"
| "step (SendBuf i) s =
     (case worker_at s i of
        Some (WSend p) \<Rightarrow>
          (case Progress (opts s) of
             None \<Rightarrow> None
           | Some cap \<Rightarrow>
               if length (progress_buf s) < cap
               then Some (set_worker i WSelect (s\<lparr>progress_buf := progress_buf s @ [p]\<rparr>))
               else None)
      | _ \<Rightarrow> None)"
| "step (SendDirect i) s =
     (case worker_at s i of
        Some (WSend p) \<Rightarrow>
          (case Progress (opts s) of
             None \<Rightarrow> None
           | Some cap \<Rightarrow>
               (case progress_buf s of
                  [] \<Rightarrow> Some (set_worker i WSelect (s\<lparr>progress_recv := progress_recv s @ [p]\<rparr>))
                | q # qs \<Rightarrow> None))
      | _ \<Rightarrow> None)"
| "step (SendAbort i) s =
     (case ctx_err (ctx s) of
        None \<Rightarrow> None
      | Some e \<Rightarrow>
          (case worker_at s i of
             Some (WSend p) \<Rightarrow> Some (set_worker i (WDone None) s)
           | _ \<Rightarrow> None))"
| "step Consume s =
     (case progress_buf s of
        [] \<Rightarrow> None
      | p # ps \<Rightarrow> Some (s\<lparr>progress_buf := ps, progress_recv := progress_recv s @ [p]\<rparr>))"
| "step Wait s =
     (if mainpc s = MWaiting \<and> list_all is_done (workers s) then
        (case eg_err s of
           Some e \<Rightarrow> Some (s\<lparr>mainpc := MReturned (Some e)\<rparr>)
         | None \<Rightarrow>
             (case Close (Archive (opts s)) (sink s) of
                (r, st') \<Rightarrow>
                  Some (s\<lparr>sink := st', close_log := close_log s @ [r], mainpc := MReturned r\<rparr>)))
      else None)"

text \<open>A schedule is a list of events; \<open>exec\<close> runs it, \<open>None\<close> when an event cannot happen.\<close>

fun exec :: "event list \<Rightarrow> 'a state \<Rightarrow> 'a state option" where
  "exec [] s = Some s"
| "exec (e # es) s = (case step e s of None \<Rightarrow> None | Some s' \<Rightarrow> exec es s')"

definition reach :: "'a state \<Rightarrow> 'a state \<Rightarrow> bool" where
  "reach s s' = (\<exists>es. exec es s = Some s')"

text \<open>The progress values the channel has accepted, in order.\<close>

definition emitted :: "'a state \<Rightarrow> Progress list" where
  "emitted s = progress_recv s @ progress_buf s"

text \<open>The collectors the workers hold and have not run yet, and the values they are sending.\<close>

fun running :: "'a worker list \<Rightarrow> 'a Collector multiset" where
  "running [] = {#}"
| "running (w # ws) = (case w of WRun c \<Rightarrow> add_mset c (running ws) | _ \<Rightarrow> running ws)"

fun sending :: "'a worker list \<Rightarrow> Progress multiset" where
  "sending [] = {#}"
| "sending (w # ws) = (case w of WSend p \<Rightarrow> add_mset p (sending ws) | _ \<Rightarrow> sending ws)"

subsection \<open>The archive of the tests\<close>

text \<open>\<open>testArchive\<close>: a map from path to contents; \<open>Write\<close> stores, \<open>Close\<close> does nothing.\<close>

definition testArchive :: "(string \<rightharpoonup> bytes) Archive" where
  "testArchive =
     \<lparr>Write = (\<lambda>path data files. (None, files(path \<mapsto> data))),
      Close = (\<lambda>files. (None, files))\<rparr>"

text \<open>
  The inputs of the tests: \<open>context.Background()\<close> (the tests' five-second deadline is the
  \<open>Cancel\<close> event), options made of \<open>WithArchive\<close>, \<open>WithNumWorkers\<close> and
  \<open>WithProgressChan\<close>, and bodies that return a fixed payload.
\<close>

definition background :: "context" where
  "background = \<lparr>ctx_node = None, ctx_err = None\<rparr>"

definition test_options :: "int \<Rightarrow> nat option \<Rightarrow> (string \<rightharpoonup> bytes) Options" where
  "test_options n progress =
     \<lparr>TalosClient = None, KubernetesClient = None, Archive = testArchive, LogOutput = None,
      Progress = progress, Nodes = [], NumWorkers = n\<rparr>"

definition returns :: "bytes \<Rightarrow> 'a Collect" where
  "returns data = (\<lambda>cx options. (Some data, None))"

definition fails :: "string \<Rightarrow> 'a Collect" where
  "fails msg = (\<lambda>cx options. (None, Some (Err msg)))"

definition nothing :: "'a Collect" where
  "nothing = (\<lambda>cx options. (None, None))"

text \<open>One call of \<open>CreateSupportBundle\<close> under a schedule: the panic, or the state reached.\<close>

definition run_schedule ::
  "event list \<Rightarrow> context \<Rightarrow> 'a Options \<Rightarrow> 'a \<Rightarrow> 'a Collector option list \<Rightarrow> panic + 'a state option" where
  "run_schedule es cx options st cols = map_sum id (exec es) (CreateSupportBundle_init cx options st cols)"

subsection \<open>Invariants of a call\<close>

text \<open>
  Facts that hold in every state a call can reach: about the sender (\<open>inv_main\<close>), the
  errgroup's error (\<open>inv_err\<close>), the calls of \<open>Close\<close> (\<open>inv_close\<close>) and the progress
  values (\<open>inv_progress\<close>).
\<close>

definition inv_main :: "'a state \<Rightarrow> bool" where
  "inv_main s \<longleftrightarrow>
     (mainpc s \<noteq> MSending \<longrightarrow> pending s = []) \<and>
     ((\<exists>r. mainpc s = MReturned r) \<longrightarrow> list_all is_done (workers s)) \<and>
     None \<notin> set (pending s)"

definition inv_err :: "'a state \<Rightarrow> bool" where
  "inv_err s \<longleftrightarrow>
     (\<forall>e. eg_err s = Some e \<longrightarrow> ctx_err (ctx s) = Some e) \<and>
     (\<forall>i e. i < length (workers s) \<and> workers s ! i = WDone (Some e) \<longrightarrow> eg_err s = Some e) \<and>
     (\<forall>e. eg_err s = Some e \<longrightarrow> (\<exists>i<length (workers s). workers s ! i = WDone (Some e)))"

definition inv_close :: "'a state \<Rightarrow> bool" where
  "inv_close s \<longleftrightarrow>
     (\<forall>r. mainpc s = MReturned r \<longrightarrow>
        (eg_err s = None \<longrightarrow> close_log s = [r]) \<and>
        (\<forall>e. eg_err s = Some e \<longrightarrow> close_log s = [] \<and> r = Some e)) \<and>
     ((\<forall>r. mainpc s \<noteq> MReturned r) \<longrightarrow> close_log s = []) \<and>
     (\<forall>r\<in>set (close_log s). \<exists>st. r = fst (Close (Archive (opts s)) st))"

definition inv_progress :: "'a state \<Rightarrow> bool" where
  "inv_progress s \<longleftrightarrow>
     (collectProgress s \<longleftrightarrow> Progress (opts s) \<noteq> None) \<and>
     (\<forall>i p. i < length (workers s) \<and> workers s ! i = WSend p \<longrightarrow>
        collectProgress s \<and> Total p = lookup0 (totals s) (Source p)) \<and>
     (\<forall>p\<in>set (emitted s). Total p = lookup0 (totals s) (Source p))"

definition consistent :: "'a state \<Rightarrow> bool" where
  "consistent s \<longleftrightarrow> inv_main s \<and> inv_err s \<and> inv_close s \<and> inv_progress s"

subsection \<open>Ledgers\<close>

text \<open>
  What a run has done so far, for a live context.  \<open>sink_ledger\<close>: the collectors of the
  call are those still to send, those held by workers, and a list \<open>ds\<close> of those already
  run, latest first, whose entries make up the test archive.  \<open>event_ledger\<close>: with
  progress collected, each collector's label is with the sender, with a worker (as a
  collector or as a progress value being sent), or in the channel.
\<close>

definition entry :: "context \<Rightarrow> 'a Options \<Rightarrow> 'a Collector \<Rightarrow> string \<times> bytes" where
  "entry cx options c = (destinationPath c, the (fst (collect c cx options)))"

definition sink_ledger ::
  "context \<Rightarrow> (string \<rightharpoonup> bytes) Options \<Rightarrow> (string \<rightharpoonup> bytes) \<Rightarrow>
   (string \<rightharpoonup> bytes) Collector option list \<Rightarrow> (string \<rightharpoonup> bytes) state \<Rightarrow> bool" where
  "sink_ledger cx options st cols t \<longleftrightarrow>
     inv_main t \<and> opts t = options \<and>
     (ctx_err (ctx t) = None \<longrightarrow>
        ctx t = cx \<and>
        (\<exists>ds. image_mset Some (mset ds + running (workers t)) + mset (pending t) = mset cols \<and>
                sink t = st ++ map_of (map (entry cx options) ds)))"

definition event_ledger :: "'a Collector option list \<Rightarrow> 'a state \<Rightarrow> bool" where
  "event_ledger cols t \<longleftrightarrow>
     inv_main t \<and> collectProgress t \<and>
     (ctx_err (ctx t) = None \<longrightarrow>
        image_mset Source (mset (emitted t)) + image_mset Source (sending (workers t)) +
        image_mset source (running (workers t)) + image_mset (source \<circ> the) (mset (pending t))
        = image_mset (source \<circ> the) (mset cols))"

subsection \<open>A sequential schedule\<close>

text \<open>
  The schedule in which worker 0 takes every collector, runs it and hands its progress
  value to a waiting reader, before the channel is closed and every worker returns.
\<close>

definition seq_round :: "bool \<Rightarrow> event list" where
  "seq_round progress = [Recv 0, RunTask 0] @ (if progress then [SendDirect 0] else [])"

definition seq_schedule :: "bool \<Rightarrow> nat \<Rightarrow> nat \<Rightarrow> event list" where
  "seq_schedule progress ntasks nworkers =
     concat (replicate ntasks (seq_round progress)) @ CloseTasks # map RecvClosed [0..<nworkers] @ [Wait]"

subsection \<open>The collectors of TestCollectWithProgress\<close>

text \<open>
  \<open>fmt.Sprintf("%d", n)\<close> for a number that is not negative: its decimal digits.
\<close>

definition digit_char :: "nat \<Rightarrow> char" where
  "digit_char d = char_of (48 + d)"

fun Sprintf_d :: "nat \<Rightarrow> string" where
  "Sprintf_d n = (if n < 10 then [digit_char n] else Sprintf_d (n div 10) @ [digit_char (n mod 10)])"

declare Sprintf_d.simps [simp del]

text \<open>
  The test makes 1000 collectors; collector \<open>i\<close> has the path \<open>i\<close> in decimal and is
  relabelled with the group counter, which is incremented before use whenever \<open>i\<close> is a
  multiple of 10, so it is \<open>i div 10 + 1\<close>.  Each is a fresh object in a slice of its own,
  so \<open>WithSource\<close> changes that object only.
\<close>

definition TestCollectWithProgress_cols :: "'a Collector option list" where
  "TestCollectWithProgress_cols =
     map (\<lambda>i. Some (relabel_body (Sprintf_d (i div 10 + 1))
                      (NewCollector (Sprintf_d i) (returns ''something''))))
       [0..<1000]"

subsection \<open>The collectors of TestCollect\<close>

text \<open>
  Three collectors with the path \<open>1\<close>; the third is in a slice of its own that goes through
  \<open>WithNode\<close> with the node \<open>n1\<close> before it is appended to the other two.
\<close>

definition TestCollect_store :: "(string \<rightharpoonup> bytes) store" where
  "TestCollect_store =
     [0 \<mapsto> NewCollector ''1'' (returns ''something''),
      1 \<mapsto> NewCollector ''1'' (returns ''something''),
      2 \<mapsto> NewCollector ''1'' (returns ''another'')]"

definition TestCollect_cols :: "panic + (string \<rightharpoonup> bytes) Collector option list" where
  "TestCollect_cols =
     map_sum id (\<lambda>(h, scoped). deref h ([0, 1] @ scoped)) (WithNode TestCollect_store [2] ''n1'')"

text \<open>The destination paths a slice of pointers reaches.\<close>

definition paths_of :: "panic + ('a store \<times> nat list) \<Rightarrow> panic + string option list" where
  "paths_of r = map_sum id (\<lambda>(h, ps). map (map_option destinationPath \<circ> h) ps) r"

subsection \<open>What is left to do\<close>

text \<open>
  A bound on the steps the goroutines of a call can still take, and the fact that while
  the channel is open and the context is live no worker has returned.
\<close>

definition weight :: "'a worker \<Rightarrow> nat" where
  "weight w = (case w of WRun c \<Rightarrow> 3 | WSend p \<Rightarrow> 2 | WSelect \<Rightarrow> 1 | WDone r \<Rightarrow> 0)"

definition remaining :: "'a state \<Rightarrow> nat" where
  "remaining s =
     4 * length (pending s) + sum_list (map weight (workers s)) + length (progress_buf s) +
     (case mainpc s of MSending \<Rightarrow> 2 | MWaiting \<Rightarrow> 1 | MReturned r \<Rightarrow> 0)"

definition inv_live :: "'a state \<Rightarrow> bool" where
  "inv_live s \<longleftrightarrow>
     (ctx_err (ctx s) = None \<and> mainpc s = MSending \<longrightarrow>
        (\<forall>i<length (workers s). \<not> is_done (workers s ! i)))"

section \<open>Schedules and invariants\<close>

lemma exec_append:
  "exec (xs @ ys) s = (case exec xs s of None \<Rightarrow> None | Some s' \<Rightarrow> exec ys s')"
  by (induction xs arbitrary: s) (auto split: option.splits)

lemma reach_refl: "reach s s"
  unfolding reach_def by (rule exI [of _ "[]"]) simp

lemma reach_step: "reach s t \<Longrightarrow> step e t = Some u \<Longrightarrow> reach s u"
  unfolding reach_def
proof (elim exE)
  fix es assume "exec es s = Some t" and "step e t = Some u"
  then have "exec (es @ [e]) s = Some u" by (simp add: exec_append)
  then show "\<exists>es. exec es s = Some u" ..
qed

lemma reach_trans: "reach s t \<Longrightarrow> reach t u \<Longrightarrow> reach s u"
  unfolding reach_def
proof (elim exE)
  fix es fs assume "exec es s = Some t" and "exec fs t = Some u"
  then have "exec (es @ fs) s = Some u" by (simp add: exec_append)
  then show "\<exists>es. exec es s = Some u" ..
qed

lemma exec_invariant:
  assumes "exec es s = Some s'" and "P s"
    and "\<And>e t t'. P t \<Longrightarrow> step e t = Some t' \<Longrightarrow> P t'"
  shows "P s'"
  using assms(1,2)
proof (induction es arbitrary: s)
  case Nil
  then show ?case by simp
next
  case (Cons e es)
  then obtain t where t: "step e s = Some t" "exec es t = Some s'"
    by (auto split: option.splits)
  from assms(3) [OF Cons.prems(2) t(1)] have "P t" .
  with Cons.IH t(2) show ?case by blast
qed

lemma reach_invariant:
  assumes "reach s s'" and "P s"
    and "\<And>e t t'. P t \<Longrightarrow> step e t = Some t' \<Longrightarrow> P t'"
  shows "P s'"
  using assms unfolding reach_def by (blast intro: exec_invariant)

lemma step_cases [consumes 1, case_names Cancel Recv CloseTasks RecvClosed CtxDone RunTask SendBuf SendDirect SendAbort Consume Wait_err Wait_close]:
  assumes "step e s = Some s'"
  obtains
    er where "e = Cancel er" "ctx_err (ctx s) = None" "er = Canceled \<or> er = DeadlineExceeded"
      "s' = s\<lparr>ctx := (ctx s)\<lparr>ctx_err := Some er\<rparr>\<rparr>"
  | i t ts where "e = Recv i" "mainpc s = MSending" "i < length (workers s)"
      "workers s ! i = WSelect" "pending s = t # ts"
      "s' = s\<lparr>pending := ts, workers := (workers s)[i := (case t of None \<Rightarrow> WDone None | Some c \<Rightarrow> WRun c)]\<rparr>"
  | "e = CloseTasks" "mainpc s = MSending" "pending s = []" "s' = s\<lparr>mainpc := MWaiting\<rparr>"
  | i where "e = RecvClosed i" "mainpc s \<noteq> MSending" "i < length (workers s)"
      "workers s ! i = WSelect" "s' = s\<lparr>workers := (workers s)[i := WDone None]\<rparr>"
  | i er where "e = CtxDone i" "ctx_err (ctx s) = Some er" "i < length (workers s)"
      "workers s ! i = WSelect"
      "s' = s\<lparr>eg_err := (case eg_err s of None \<Rightarrow> Some er | Some e0 \<Rightarrow> Some e0),
              workers := (workers s)[i := WDone (Some er)]\<rparr>"
  | i c r st' where "e = RunTask i" "i < length (workers s)" "workers s ! i = WRun c"
      "Run c (ctx s) (opts s) (sink s) = (r, st')"
      "s' = s\<lparr>sink := st', workers := (workers s)[i := after_run s c r]\<rparr>"
  | i p cap where "e = SendBuf i" "i < length (workers s)" "workers s ! i = WSend p"
      "Progress (opts s) = Some cap" "length (progress_buf s) < cap"
      "s' = s\<lparr>progress_buf := progress_buf s @ [p], workers := (workers s)[i := WSelect]\<rparr>"
  | i p cap where "e = SendDirect i" "i < length (workers s)" "workers s ! i = WSend p"
      "Progress (opts s) = Some cap" "progress_buf s = []"
      "s' = s\<lparr>progress_recv := progress_recv s @ [p], workers := (workers s)[i := WSelect]\<rparr>"
  | i p er where "e = SendAbort i" "ctx_err (ctx s) = Some er" "i < length (workers s)"
      "workers s ! i = WSend p" "s' = s\<lparr>workers := (workers s)[i := WDone None]\<rparr>"
  | p ps where "e = Consume" "progress_buf s = p # ps"
      "s' = s\<lparr>progress_buf := ps, progress_recv := progress_recv s @ [p]\<rparr>"
  | er where "e = Wait" "mainpc s = MWaiting" "list_all is_done (workers s)" "eg_err s = Some er"
      "s' = s\<lparr>mainpc := MReturned (Some er)\<rparr>"
  | r st' where "e = Wait" "mainpc s = MWaiting" "list_all is_done (workers s)" "eg_err s = None"
      "Close (Archive (opts s)) (sink s) = (r, st')"
      "s' = s\<lparr>sink := st', close_log := close_log s @ [r], mainpc := MReturned r\<rparr>"
proof (cases e)
  case (Cancel er)
  with assms show ?thesis using that(1) by (auto split: if_splits)
next
  case (Recv i)
  with assms show ?thesis using that(2)
    by (auto simp: worker_at_def set_worker_def split: if_splits worker.splits list.splits)
next
  case CloseTasks
  with assms show ?thesis using that(3) by (auto split: if_splits list.splits)
next
  case (RecvClosed i)
  with assms show ?thesis using that(4)
    by (auto simp: worker_at_def set_worker_def split: if_splits worker.splits)
next
  case (CtxDone i)
  with assms show ?thesis using that(5)
    by (auto simp: worker_at_def set_worker_def split: if_splits option.splits worker.splits)
next
  case (RunTask i)
  with assms show ?thesis using that(6)
    by (auto simp: worker_at_def set_worker_def split: if_splits worker.splits prod.splits)
next
  case (SendBuf i)
  with assms show ?thesis using that(7)
    by (auto simp: worker_at_def set_worker_def split: if_splits option.splits worker.splits)
next
  case (SendDirect i)
  with assms show ?thesis using that(8)
    by (auto simp: worker_at_def set_worker_def split: if_splits option.splits worker.splits list.splits)
next
  case (SendAbort i)
  with assms show ?thesis using that(9)
    by (auto simp: worker_at_def set_worker_def split: if_splits option.splits worker.splits)
next
  case Consume
  with assms show ?thesis using that(10) by (auto split: list.splits)
next
  case Wait
  with assms show ?thesis using that(11,12)
    by (auto split: if_splits option.splits prod.splits)
qed

lemma step_frame:
  assumes "step e s = Some s'"
  shows "opts s' = opts s \<and> totals s' = totals s \<and> collectProgress s' = collectProgress s \<and>
         length (workers s') = length (workers s)"
  using assms by (cases rule: step_cases) auto

lemma not_done_simps [simp]:
  "\<not> is_done WSelect" "\<not> is_done (WRun c)" "\<not> is_done (WSend p)" "is_done (WDone r)"
  by (simp_all add: is_done_def)

lemma all_done_nth: "list_all is_done ws \<Longrightarrow> i < length ws \<Longrightarrow> is_done (ws ! i)"
  by (simp add: list_all_length)

lemma inv_main_step:
  assumes "inv_main s" and "step e s = Some s'"
  shows "inv_main s'"
  using assms(2)
proof (cases rule: step_cases)
  case (Recv i t ts)
  with assms(1) show ?thesis by (auto simp: inv_main_def)
next
  case (RecvClosed i)
  with assms(1) show ?thesis by (auto simp: inv_main_def dest: all_done_nth)
next
  case (CtxDone i er)
  with assms(1) show ?thesis by (auto simp: inv_main_def dest: all_done_nth)
next
  case (RunTask i c r st')
  with assms(1) show ?thesis by (auto simp: inv_main_def dest: all_done_nth)
next
  case (SendBuf i p cap)
  with assms(1) show ?thesis by (auto simp: inv_main_def dest: all_done_nth)
next
  case (SendDirect i p cap)
  with assms(1) show ?thesis by (auto simp: inv_main_def dest: all_done_nth)
next
  case (SendAbort i p er)
  with assms(1) show ?thesis by (auto simp: inv_main_def dest: all_done_nth)
qed (use assms(1) in \<open>auto simp: inv_main_def\<close>)

lemma inv_err_update:
  assumes "inv_err s" and "i < length (workers s)" and "\<not> is_done (workers s ! i)"
    and "\<And>e. w \<noteq> WDone (Some e)"
    and "eg_err s' = eg_err s" and "ctx_err (ctx s') = ctx_err (ctx s)"
    and "workers s' = (workers s)[i := w]"
  shows "inv_err s'"
  unfolding inv_err_def
proof (intro conjI allI impI)
  fix e assume "eg_err s' = Some e"
  with assms(1,5,6) show "ctx_err (ctx s') = Some e" unfolding inv_err_def by metis
next
  fix j e assume "j < length (workers s') \<and> workers s' ! j = WDone (Some e)"
  with assms(2,4,7) have "j < length (workers s)" "workers s ! j = WDone (Some e)"
    by (auto simp: nth_list_update split: if_splits)
  with assms(1,5) show "eg_err s' = Some e" unfolding inv_err_def by metis
next
  fix e assume "eg_err s' = Some e"
  with assms(1,5) obtain j where j: "j < length (workers s)" "workers s ! j = WDone (Some e)"
    unfolding inv_err_def by metis
  with assms(3) have "j \<noteq> i" by auto
  with j assms(7) have "j < length (workers s') \<and> workers s' ! j = WDone (Some e)" by simp
  then show "\<exists>j<length (workers s'). workers s' ! j = WDone (Some e)" by blast
qed

lemma inv_err_same:
  assumes "inv_err s" and "eg_err s' = eg_err s" and "ctx_err (ctx s') = ctx_err (ctx s)"
    and "workers s' = workers s"
  shows "inv_err s'"
  using assms by (simp add: inv_err_def)

lemma inv_err_step:
  assumes "inv_err s" and "step e s = Some s'"
  shows "inv_err s'"
  using assms(2)
proof (cases rule: step_cases)
  case (Cancel er)
  with assms(1) have "eg_err s = None" by (cases "eg_err s") (auto simp: inv_err_def)
  with assms(1) Cancel show ?thesis by (auto simp: inv_err_def)
next
  case (Recv i t ts)
  show ?thesis
    by (rule inv_err_update [OF assms(1), where i = i]) (use Recv in \<open>auto split: option.splits\<close>)
next
  case CloseTasks
  with assms(1) show ?thesis by (simp add: inv_err_def)
next
  case (RecvClosed i)
  show ?thesis
    by (rule inv_err_update [OF assms(1), where i = i]) (use RecvClosed in auto)
next
  case (CtxDone i er)
  from assms(1) have a: "\<And>e. eg_err s = Some e \<Longrightarrow> ctx_err (ctx s) = Some e"
    and b: "\<And>j e. j < length (workers s) \<Longrightarrow> workers s ! j = WDone (Some e) \<Longrightarrow> eg_err s = Some e"
    and c: "\<And>e. eg_err s = Some e \<Longrightarrow> \<exists>j<length (workers s). workers s ! j = WDone (Some e)"
    unfolding inv_err_def by blast+
  have eg: "eg_err s' = Some er"
    using CtxDone a by (cases "eg_err s") auto
  have w: "workers s' = (workers s)[i := WDone (Some er)]" and cx: "ctx s' = ctx s"
    using CtxDone by simp_all
  show ?thesis
    unfolding inv_err_def
  proof (intro conjI allI impI)
    fix e assume "eg_err s' = Some e"
    with eg cx CtxDone(2) show "ctx_err (ctx s') = Some e" by simp
  next
    fix j e assume h: "j < length (workers s') \<and> workers s' ! j = WDone (Some e)"
    show "eg_err s' = Some e"
    proof (cases "j = i")
      case True
      with h w CtxDone(3) show ?thesis using eg by simp
    next
      case False
      with h w have "j < length (workers s)" "workers s ! j = WDone (Some e)" by simp_all
      then have "eg_err s = Some e" by (rule b)
      with a CtxDone(2) eg show ?thesis by fastforce
    qed
  next
    fix e assume "eg_err s' = Some e"
    with eg have "e = er" by simp
    with w CtxDone(3) have "i < length (workers s') \<and> workers s' ! i = WDone (Some e)" by simp
    then show "\<exists>j<length (workers s'). workers s' ! j = WDone (Some e)" by blast
  qed
next
  case (RunTask i c r st')
  show ?thesis
    by (rule inv_err_update [OF assms(1), where i = i]) (use RunTask in \<open>auto simp: after_run_def\<close>)
next
  case (SendBuf i p cap)
  show ?thesis
    by (rule inv_err_update [OF assms(1), where i = i]) (use SendBuf in auto)
next
  case (SendDirect i p cap)
  show ?thesis
    by (rule inv_err_update [OF assms(1), where i = i]) (use SendDirect in auto)
next
  case (SendAbort i p er)
  show ?thesis
    by (rule inv_err_update [OF assms(1), where i = i]) (use SendAbort in auto)
next
  case (Consume p ps)
  with assms(1) show ?thesis by (simp add: inv_err_def)
next
  case (Wait_err er)
  with assms(1) show ?thesis by (simp add: inv_err_def)
next
  case (Wait_close r st')
  with assms(1) show ?thesis by (simp add: inv_err_def)
qed

lemma inv_close_step:
  assumes "inv_close s" and "inv_main s" and "step e s = Some s'"
  shows "inv_close s'"
  using assms(3)
proof (cases rule: step_cases)
  case (CtxDone i er)
  with assms(1,2) show ?thesis
    by (auto simp: inv_close_def inv_main_def dest: all_done_nth)
next
  case (Wait_close r st')
  with assms(1) show ?thesis
    by (auto simp: inv_close_def intro: exI [of _ "sink s"])
qed (use assms(1) in \<open>auto simp: inv_close_def\<close>)

lemma inv_progress_step:
  assumes "inv_progress s" and "step e s = Some s'"
  shows "inv_progress s'"
  using assms(2)
proof (cases rule: step_cases)
  case (Recv i t ts)
  with assms(1) show ?thesis
    by (cases t) (auto simp: inv_progress_def emitted_def nth_list_update)
next
  case (RecvClosed i)
  with assms(1) show ?thesis by (auto simp: inv_progress_def emitted_def nth_list_update)
next
  case (CtxDone i er)
  with assms(1) show ?thesis by (auto simp: inv_progress_def emitted_def nth_list_update)
next
  case (RunTask i c r st')
  with assms(1) show ?thesis
    by (auto simp: inv_progress_def emitted_def nth_list_update after_run_def)
next
  case (SendBuf i p cap)
  with assms(1) show ?thesis by (auto simp: inv_progress_def emitted_def nth_list_update)
next
  case (SendDirect i p cap)
  with assms(1) show ?thesis by (auto simp: inv_progress_def emitted_def nth_list_update)
next
  case (SendAbort i p er)
  with assms(1) show ?thesis by (auto simp: inv_progress_def emitted_def nth_list_update)
qed (use assms(1) in \<open>auto simp: inv_progress_def emitted_def\<close>)

lemma consistent_step: "consistent s \<Longrightarrow> step e s = Some s' \<Longrightarrow> consistent s'"
  unfolding consistent_def
  by (blast intro: inv_main_step inv_err_step inv_close_step inv_progress_step)

lemma calculateTotals_loop_Inr:
  "calculateTotals_loop res cols = Inr t \<Longrightarrow> None \<notin> set cols"
  by (induction res cols rule: calculateTotals_loop.induct) auto

lemma calculateTotals_loop_nil:
  "None \<in> set cols \<Longrightarrow> calculateTotals_loop res cols = Inl NilPointerDereference"
  by (induction res cols rule: calculateTotals_loop.induct) auto

lemma init_fields:
  assumes "CreateSupportBundle_init cx options st cols = Inr s0"
  shows "opts s0 = options\<lparr>NumWorkers := (if NumWorkers options = 0 then 1 else NumWorkers options)\<rparr>"
    and "calculateTotals cols = Inr (totals s0)"
    and "collectProgress s0 = (Progress options \<noteq> None)"
    and "ctx s0 = cx" and "pending s0 = cols" and "mainpc s0 = MSending"
    and "workers s0 = replicate (nat (if NumWorkers options = 0 then 1 else NumWorkers options)) WSelect"
    and "eg_err s0 = None" and "sink s0 = st" and "progress_buf s0 = []"
    and "progress_recv s0 = []" and "close_log s0 = []"
  using assms
  by (auto simp: CreateSupportBundle_init_def Let_def split: sum.splits option.splits if_splits)

lemma init_consistent:
  assumes "CreateSupportBundle_init cx options st cols = Inr s0"
  shows "consistent s0"
proof -
  note f = init_fields [OF assms]
  have "None \<notin> set cols"
    using f(2) by (auto simp: calculateTotals_def dest: calculateTotals_loop_Inr)
  then show ?thesis
    by (auto simp: consistent_def inv_main_def inv_err_def inv_close_def inv_progress_def
        emitted_def f)
qed

lemma reach_consistent:
  assumes "CreateSupportBundle_init cx options st cols = Inr s0" and "reach s0 s"
  shows "consistent s"
  using assms(2) init_consistent [OF assms(1)] consistent_step
  by (rule reach_invariant)

lemma reach_frame:
  assumes "reach s0 s"
  shows "opts s = opts s0 \<and> totals s = totals s0 \<and> collectProgress s = collectProgress s0 \<and>
         length (workers s) = length (workers s0)"
  using assms
proof (rule reach_invariant)
  show "opts s0 = opts s0 \<and> totals s0 = totals s0 \<and> collectProgress s0 = collectProgress s0 \<and>
        length (workers s0) = length (workers s0)" by simp
next
  fix e t t'
  assume "opts t = opts s0 \<and> totals t = totals s0 \<and> collectProgress t = collectProgress s0 \<and>
          length (workers t) = length (workers s0)" and "step e t = Some t'"
  then show "opts t' = opts s0 \<and> totals t' = totals s0 \<and> collectProgress t' = collectProgress s0 \<and>
          length (workers t') = length (workers s0)"
    using step_frame by metis
qed

lemmas run_defs =
  CreateSupportBundle_init_def calculateTotals_def run_schedule_def worker_at_def set_worker_def
  after_run_def Run_def is_done_def lookup0_def String_def filepath_Base_def
  NewCollector_def Cluster_def returns_def fails_def nothing_def
  background_def test_options_def testArchive_def

lemma reachI: "exec es s = Some s' \<Longrightarrow> reach s s'"
  unfolding reach_def by blast

lemma stuck_sender:
  assumes "exec es s = Some s'" and "mainpc s = MSending" and "pending s \<noteq> []"
    and "list_all is_done (workers s)"
  shows "mainpc s' = MSending \<and> pending s' = pending s \<and> workers s' = workers s \<and>
         sink s' = sink s \<and> close_log s' = close_log s \<and> eg_err s' = eg_err s"
proof (rule exec_invariant [OF assms(1), where P = "\<lambda>t. mainpc t = MSending \<and> pending t = pending s \<and>
    workers t = workers s \<and> sink t = sink s \<and> close_log t = close_log s \<and> eg_err t = eg_err s"])
  show "mainpc s = MSending \<and> pending s = pending s \<and> workers s = workers s \<and>
        sink s = sink s \<and> close_log s = close_log s \<and> eg_err s = eg_err s"
    using assms(2) by simp
next
  fix e t t'
  assume P: "mainpc t = MSending \<and> pending t = pending s \<and> workers t = workers s \<and>
    sink t = sink s \<and> close_log t = close_log s \<and> eg_err t = eg_err s"
    and st: "step e t = Some t'"
  from P assms(4) have d: "\<And>i. i < length (workers t) \<Longrightarrow> is_done (workers t ! i)"
    by (simp add: list_all_length)
  from st show "mainpc t' = MSending \<and> pending t' = pending s \<and> workers t' = workers s \<and>
    sink t' = sink s \<and> close_log t' = close_log s \<and> eg_err t' = eg_err s"
  proof (cases rule: step_cases)
    case (Cancel er)
    with P show ?thesis by simp
  next
    case (Recv i t ts)
    with d [of i] show ?thesis by simp
  next
    case CloseTasks
    with P assms(3) show ?thesis by simp
  next
    case (RecvClosed i)
    with d [of i] show ?thesis by simp
  next
    case (CtxDone i er)
    with d [of i] show ?thesis by simp
  next
    case (RunTask i c r st')
    with d [of i] show ?thesis by simp
  next
    case (SendBuf i p cap)
    with d [of i] show ?thesis by simp
  next
    case (SendDirect i p cap)
    with d [of i] show ?thesis by simp
  next
    case (SendAbort i p er)
    with d [of i] show ?thesis by simp
  next
    case (Consume p ps)
    with P show ?thesis by simp
  next
    case (Wait_err er)
    with P show ?thesis by simp
  next
    case (Wait_close r st')
    with P show ?thesis by simp
  qed
qed

lemma returned_all_handed_over:
  assumes "CreateSupportBundle_init cx options st cols = Inr s0" and "reach s0 s"
    and "mainpc s = MReturned r"
  shows "pending s = [] \<and> list_all is_done (workers s)"
  using reach_consistent [OF assms(1,2)] assms(3)
  by (simp add: consistent_def inv_main_def)

lemma running_update:
  "i < length ws \<Longrightarrow> running (ws[i := w]) + running [ws ! i] = running ws + running [w]"
proof (induction ws arbitrary: i)
  case Nil
  then show ?case by simp
next
  case (Cons a ws)
  show ?case
  proof (cases i)
    case 0
    then show ?thesis by (simp split: worker.splits)
  next
    case (Suc j)
    with Cons.prems have "j < length ws" by simp
    from Cons.IH [OF this] Suc show ?thesis
      by (cases a) (simp_all add: ac_simps)
  qed
qed

lemma sending_update:
  "i < length ws \<Longrightarrow> sending (ws[i := w]) + sending [ws ! i] = sending ws + sending [w]"
proof (induction ws arbitrary: i)
  case Nil
  then show ?case by simp
next
  case (Cons a ws)
  show ?case
  proof (cases i)
    case 0
    then show ?thesis by (simp split: worker.splits)
  next
    case (Suc j)
    with Cons.prems have "j < length ws" by simp
    from Cons.IH [OF this] Suc show ?thesis
      by (cases a) (simp_all add: ac_simps)
  qed
qed

lemma running_keep:
  assumes "i < length ws" and "running [ws ! i] = {#}" and "running [w] = {#}"
  shows "running (ws[i := w]) = running ws"
  using running_update [OF assms(1), of w] assms(2,3) by simp

lemma sending_keep:
  assumes "i < length ws" and "sending [ws ! i] = {#}" and "sending [w] = {#}"
  shows "sending (ws[i := w]) = sending ws"
  using sending_update [OF assms(1), of w] assms(2,3) by simp

lemma running_start:
  assumes "i < length ws" and "running [ws ! i] = {#}"
  shows "running (ws[i := WRun c]) = add_mset c (running ws)"
  using running_update [OF assms(1), of "WRun c"] assms(2) by simp

lemma running_finish:
  assumes "i < length ws" and "ws ! i = WRun c" and "running [w] = {#}"
  shows "running ws = add_mset c (running (ws[i := w]))"
  using running_update [OF assms(1), of w] assms(2,3) by simp

lemma sending_start:
  assumes "i < length ws" and "sending [ws ! i] = {#}"
  shows "sending (ws[i := WSend p]) = add_mset p (sending ws)"
  using sending_update [OF assms(1), of "WSend p"] assms(2) by simp

lemma sending_finish:
  assumes "i < length ws" and "ws ! i = WSend p" and "sending [w] = {#}"
  shows "sending ws = add_mset p (sending (ws[i := w]))"
  using sending_update [OF assms(1), of w] assms(2,3) by simp

lemma all_done_idle:
  "list_all is_done ws \<Longrightarrow> running ws = {#} \<and> sending ws = {#}"
  by (induction ws) (auto simp: is_done_def split: worker.splits)

lemma running_replicate [simp]: "running (replicate n WSelect) = {#}"
  by (induction n) simp_all

lemma sending_replicate [simp]: "sending (replicate n WSelect) = {#}"
  by (induction n) simp_all

lemma calculateTotals_loop_count:
  "calculateTotals_loop res cols = Inr t \<Longrightarrow>
     lookup0 t k = lookup0 res k + int (count_list (map (source \<circ> the) cols) k)"
  by (induction res cols rule: calculateTotals_loop.induct) (auto simp: lookup0_def)

lemma calculateTotals_loop_dom:
  "calculateTotals_loop res cols = Inr t \<Longrightarrow> dom t = dom res \<union> (source \<circ> the) ` set cols"
  by (induction res cols rule: calculateTotals_loop.induct) auto

lemma calculateTotals_count:
  assumes "calculateTotals cols = Inr t"
  shows "lookup0 t k = int (count_list (map (source \<circ> the) cols) k)"
    and "t k = (if k \<in> (source \<circ> the) ` set cols
                then Some (int (count_list (map (source \<circ> the) cols) k)) else None)"
proof -
  from assms have l: "calculateTotals_loop Map.empty cols = Inr t"
    by (simp add: calculateTotals_def)
  from calculateTotals_loop_count [OF l, of k]
  show 1: "lookup0 t k = int (count_list (map (source \<circ> the) cols) k)"
    by (simp add: lookup0_def)
  from calculateTotals_loop_dom [OF l] have d: "dom t = (source \<circ> the) ` set cols" by simp
  show "t k = (if k \<in> (source \<circ> the) ` set cols
                then Some (int (count_list (map (source \<circ> the) cols) k)) else None)"
  proof (cases "t k")
    case None
    then have "k \<notin> dom t" by (simp add: dom_def)
    with d None show ?thesis by simp
  next
    case (Some v)
    then have "k \<in> dom t" by (simp add: dom_def)
    with d have "k \<in> (source \<circ> the) ` set cols" by simp
    with 1 Some show ?thesis by (simp add: lookup0_def)
  qed
qed

lemma idle_simps [simp]:
  "running [WSelect] = {#}" "running [WSend p] = {#}" "running [WDone r] = {#}"
  "running [WRun c] = {#c#}"
  "sending [WSelect] = {#}" "sending [WRun c] = {#}" "sending [WDone r] = {#}"
  "sending [WSend p] = {#p#}"
  by simp_all

lemma running_after_run [simp]: "running [after_run s c r] = {#}"
  by (simp add: after_run_def)

lemma step_ctx_live:
  assumes "step e t = Some t'" and "ctx_err (ctx t') = None"
  shows "ctx t' = ctx t"
  using assms by (cases rule: step_cases) simp_all

lemma running_member:
  "i < length ws \<Longrightarrow> ws ! i = WRun c \<Longrightarrow> c \<in># running ws"
  using running_finish [of i ws c WSelect] by simp

lemma sink_ledger_step:
  assumes P: "sink_ledger cx options st cols t" and st: "step e t = Some t'"
    and ar: "Archive options = testArchive"
    and bodies: "\<forall>c. Some c \<in> set cols \<longrightarrow> (\<exists>d. collect c cx options = (Some d, None))"
  shows "sink_ledger cx options st cols t'"
proof -
  from P have m: "inv_main t" and o: "opts t = options" by (simp_all add: sink_ledger_def)
  have m': "inv_main t'" using m st by (rule inv_main_step)
  have o': "opts t' = options" using step_frame [OF st] o by simp
  have "ctx t' = cx \<and>
        (\<exists>ds. image_mset Some (mset ds + running (workers t')) + mset (pending t') = mset cols \<and>
                sink t' = st ++ map_of (map (entry cx options) ds))"
    if n: "ctx_err (ctx t') = None"
  proof -
    have c: "ctx t' = ctx t" using st n by (rule step_ctx_live)
    with n P obtain ds where cx: "ctx t = cx"
      and l: "image_mset Some (mset ds + running (workers t)) + mset (pending t) = mset cols"
      and k: "sink t = st ++ map_of (map (entry cx options) ds)"
      unfolding sink_ledger_def by auto
    let ?L = "\<lambda>ds. image_mset Some (mset ds + running (workers t')) + mset (pending t') = mset cols \<and>
                sink t' = st ++ map_of (map (entry cx options) ds)"
    have "\<exists>ds. ?L ds"
      using st
    proof (cases rule: step_cases)
      case (Cancel er)
      with n show ?thesis by simp
    next
      case (Recv i x ts)
      with m obtain c where x: "x = Some c" by (cases x) (auto simp: inv_main_def)
      have "running (workers t') = add_mset c (running (workers t))"
        using Recv x by (simp add: running_start)
      with l k Recv x have "?L ds" by simp
      then show ?thesis ..
    next
      case CloseTasks
      with l k have "?L ds" by simp
      then show ?thesis ..
    next
      case (RecvClosed i)
      then have "running (workers t') = running (workers t)" by (simp add: running_keep)
      with l k RecvClosed have "?L ds" by simp
      then show ?thesis ..
    next
      case (CtxDone i er)
      with n show ?thesis by simp
    next
      case (RunTask i c r st')
      have "running (workers t) = add_mset c (running ((workers t)[i := after_run t c r]))"
        by (rule running_finish) (use RunTask in \<open>simp_all add: after_run_def\<close>)
      with RunTask have r: "running (workers t) = add_mset c (running (workers t'))" by simp
      then have "Some c \<in># image_mset Some (mset ds + running (workers t)) + mset (pending t)"
        by simp
      with l have "Some c \<in> set cols" by (metis set_mset_mset)
      with bodies obtain d where d: "collect c cx options = (Some d, None)" by blast
      with RunTask(4) cx o ar have "st' = (sink t)(destinationPath c \<mapsto> d)"
        by (simp add: Run_def testArchive_def)
      with k d have "st' = st ++ map_of (map (entry cx options) (c # ds))"
        by (simp add: entry_def)
      moreover from l r RunTask
      have "image_mset Some (mset (c # ds) + running (workers t')) + mset (pending t') = mset cols"
        by simp
      ultimately have "?L (c # ds)" using RunTask by simp
      then show ?thesis ..
    next
      case (SendBuf i p cap)
      then have "running (workers t') = running (workers t)" by (simp add: running_keep)
      with l k SendBuf have "?L ds" by simp
      then show ?thesis ..
    next
      case (SendDirect i p cap)
      then have "running (workers t') = running (workers t)" by (simp add: running_keep)
      with l k SendDirect have "?L ds" by simp
      then show ?thesis ..
    next
      case (SendAbort i p er)
      with n show ?thesis by simp
    next
      case (Consume p ps)
      with l k have "?L ds" by simp
      then show ?thesis ..
    next
      case (Wait_err er)
      with l k have "?L ds" by simp
      then show ?thesis ..
    next
      case (Wait_close r st')
      with o ar have "st' = sink t" by (simp add: testArchive_def)
      with l k Wait_close have "?L ds" by simp
      then show ?thesis ..
    qed
    with c cx show ?thesis by simp
  qed
  with m' o' show ?thesis unfolding sink_ledger_def by blast
qed

lemma event_ledger_step:
  assumes P: "event_ledger cols t" and st: "step e t = Some t'"
  shows "event_ledger cols t'"
proof -
  from P have m: "inv_main t" and cp: "collectProgress t" by (simp_all add: event_ledger_def)
  have m': "inv_main t'" using m st by (rule inv_main_step)
  have cp': "collectProgress t'" using step_frame [OF st] cp by simp
  let ?L = "\<lambda>t. image_mset Source (mset (emitted t)) + image_mset Source (sending (workers t)) +
        image_mset source (running (workers t)) + image_mset (source \<circ> the) (mset (pending t))
        = image_mset (source \<circ> the) (mset cols)"
  have "?L t'" if n: "ctx_err (ctx t') = None"
  proof -
    have c: "ctx t' = ctx t" using st n by (rule step_ctx_live)
    with n P have l: "?L t" unfolding event_ledger_def by simp
    from st show ?thesis
    proof (cases rule: step_cases)
      case (Cancel er)
      with n show ?thesis by simp
    next
      case (Recv i x ts)
      with m obtain c where x: "x = Some c" by (cases x) (auto simp: inv_main_def)
      have "running (workers t') = add_mset c (running (workers t))"
        "sending (workers t') = sending (workers t)"
        using Recv x by (simp_all add: running_start sending_keep)
      with l Recv x show ?thesis by (simp add: emitted_def)
    next
      case CloseTasks
      with l show ?thesis by (simp add: emitted_def)
    next
      case (RecvClosed i)
      then have "running (workers t') = running (workers t)"
        "sending (workers t') = sending (workers t)"
        by (simp_all add: running_keep sending_keep)
      with l RecvClosed show ?thesis by (simp add: emitted_def)
    next
      case (CtxDone i er)
      with n show ?thesis by simp
    next
      case (RunTask i c r st')
      let ?p = "\<lparr>Error = r, Source = source c, State = String c,
                  Total = lookup0 (totals t) (source c)\<rparr>"
      have w: "after_run t c r = WSend ?p" using cp by (simp add: after_run_def)
      have "running (workers t) = add_mset c (running ((workers t)[i := after_run t c r]))"
        by (rule running_finish) (use RunTask in \<open>simp_all add: after_run_def\<close>)
      with RunTask have "running (workers t) = add_mset c (running (workers t'))" by simp
      moreover have "sending (workers t') = add_mset ?p (sending (workers t))"
        using RunTask w by (simp add: sending_start)
      ultimately show ?thesis using l RunTask by (simp add: emitted_def)
    next
      case (SendBuf i p cap)
      have "sending (workers t) = add_mset p (sending ((workers t)[i := WSelect]))"
        by (rule sending_finish) (use SendBuf in simp_all)
      with SendBuf have "running (workers t') = running (workers t)"
        "sending (workers t) = add_mset p (sending (workers t'))"
        by (simp_all add: running_keep)
      with l SendBuf show ?thesis by (simp add: emitted_def)
    next
      case (SendDirect i p cap)
      have "sending (workers t) = add_mset p (sending ((workers t)[i := WSelect]))"
        by (rule sending_finish) (use SendDirect in simp_all)
      with SendDirect have "running (workers t') = running (workers t)"
        "sending (workers t) = add_mset p (sending (workers t'))"
        by (simp_all add: running_keep)
      with l SendDirect show ?thesis by (simp add: emitted_def)
    next
      case (SendAbort i p er)
      with n show ?thesis by simp
    next
      case (Consume p ps)
      with l show ?thesis by (simp add: emitted_def)
    next
      case (Wait_err er)
      with l show ?thesis by (simp add: emitted_def)
    next
      case (Wait_close r st')
      with l show ?thesis by (simp add: emitted_def)
    qed
  qed
  with m' cp' show ?thesis unfolding event_ledger_def by blast
qed

lemma list_update_same: "i < length ws \<Longrightarrow> ws ! i = w \<Longrightarrow> ws[i := w] = ws"
  by (metis list_update_id)

lemma seq_round_exec:
  assumes "mainpc s = MSending" and "pending s = Some c # ps" and "workers s \<noteq> []"
    and "workers s ! 0 = WSelect" and "progress_buf s = []"
    and "collectProgress s \<longleftrightarrow> Progress (opts s) \<noteq> None"
  shows "\<exists>s'. exec (seq_round (collectProgress s)) s = Some s' \<and> mainpc s' = MSending \<and>
     pending s' = ps \<and> workers s' = workers s \<and> ctx s' = ctx s \<and> eg_err s' = eg_err s \<and>
     progress_buf s' = [] \<and> opts s' = opts s \<and> collectProgress s' = collectProgress s \<and>
     close_log s' = close_log s"
proof -
  from assms(3) have l: "0 < length (workers s)" by simp
  obtain r st' where run: "Run c (ctx s) (opts s) (sink s) = (r, st')" by (cases "Run c (ctx s) (opts s) (sink s)")
  have same: "(workers s)[0 := WSelect] = workers s"
    using l assms(4) by (rule list_update_same)
  show ?thesis
  proof (cases "collectProgress s")
    case False
    with assms l run same show ?thesis
      by (simp add: seq_round_def worker_at_def set_worker_def after_run_def)
  next
    case True
    with assms(6) obtain cap where "Progress (opts s) = Some cap" by auto
    with True assms l run same show ?thesis
      by (simp add: seq_round_def worker_at_def set_worker_def after_run_def)
  qed
qed

lemma seq_tasks_exec:
  assumes "mainpc s = MSending" and "pending s = map Some cs" and "workers s \<noteq> []"
    and "workers s ! 0 = WSelect" and "progress_buf s = []"
    and "collectProgress s \<longleftrightarrow> Progress (opts s) \<noteq> None"
  shows "\<exists>s'. exec (concat (replicate (length cs) (seq_round (collectProgress s)))) s = Some s' \<and>
     mainpc s' = MSending \<and> pending s' = [] \<and> workers s' = workers s \<and> ctx s' = ctx s \<and>
     eg_err s' = eg_err s \<and> progress_buf s' = [] \<and> opts s' = opts s \<and>
     collectProgress s' = collectProgress s \<and> close_log s' = close_log s"
  using assms
proof (induction cs arbitrary: s)
  case Nil
  then show ?case by simp
next
  case (Cons c cs)
  from Cons.prems have p: "pending s = Some c # map Some cs" by simp
  from seq_round_exec [OF Cons.prems(1) p Cons.prems(3-6)]
  obtain s1 where s1: "exec (seq_round (collectProgress s)) s = Some s1" "mainpc s1 = MSending"
    "pending s1 = map Some cs" "workers s1 = workers s" "ctx s1 = ctx s" "eg_err s1 = eg_err s"
    "progress_buf s1 = []" "opts s1 = opts s" "collectProgress s1 = collectProgress s"
    "close_log s1 = close_log s"
    by blast
  have "\<exists>s'. exec (concat (replicate (length cs) (seq_round (collectProgress s1)))) s1 = Some s' \<and>
     mainpc s' = MSending \<and> pending s' = [] \<and> workers s' = workers s1 \<and> ctx s' = ctx s1 \<and>
     eg_err s' = eg_err s1 \<and> progress_buf s' = [] \<and> opts s' = opts s1 \<and>
     collectProgress s' = collectProgress s1 \<and> close_log s' = close_log s1"
    by (rule Cons.IH) (use s1 Cons.prems in simp_all)
  with s1 show ?case by (auto simp: exec_append)
qed

lemma seq_close_exec:
  assumes "workers s = replicate j (WDone None) @ replicate m WSelect" and "mainpc s \<noteq> MSending"
  shows "exec (map RecvClosed [j..<j + m]) s = Some (s\<lparr>workers := replicate (j + m) (WDone None)\<rparr>)"
  using assms
proof (induction m arbitrary: j s)
  case 0
  then show ?case by simp
next
  case (Suc m)
  let ?s1 = "s\<lparr>workers := replicate (Suc j) (WDone None) @ replicate m WSelect\<rparr>"
  have u: "[j..<j + Suc m] = j # [Suc j..<Suc j + m]" by (simp add: upt_rec)
  have w: "(workers s)[j := WDone None] = replicate (Suc j) (WDone None) @ replicate m WSelect"
    using Suc.prems(1) by (simp add: list_update_append replicate_append_same)
  have st: "step (RecvClosed j) s = Some ?s1"
    using Suc.prems w by (simp add: worker_at_def set_worker_def nth_append)
  have "exec (map RecvClosed [Suc j..<Suc j + m]) ?s1
        = Some (?s1\<lparr>workers := replicate (Suc j + m) (WDone None)\<rparr>)"
    by (rule Suc.IH) (use Suc.prems in simp_all)
  with st u show ?case by simp
qed

lemma completes:
  assumes init: "CreateSupportBundle_init cx options st cols = Inr s0"
    and n: "0 \<le> NumWorkers options"
  shows "\<exists>s r. exec (seq_schedule (Progress options \<noteq> None) (length cols)
                  (nat (if NumWorkers options = 0 then 1 else NumWorkers options))) s0 = Some s \<and>
          mainpc s = MReturned r \<and> ctx s = cx"
proof -
  note f = init_fields [OF init]
  let ?n = "nat (if NumWorkers options = 0 then 1 else NumWorkers options)"
  from n have pos: "0 < ?n" by simp
  have "None \<notin> set cols"
    using f(2) by (auto simp: calculateTotals_def dest: calculateTotals_loop_Inr)
  then have cs: "cols = map Some (map the cols)" by (induction cols) auto
  have p0: "pending s0 = map Some (map the cols)" using f(5) cs by simp
  have w0: "workers s0 \<noteq> []" "workers s0 ! 0 = WSelect" using f(7) pos by simp_all
  have c0: "collectProgress s0 \<longleftrightarrow> Progress (opts s0) \<noteq> None" using f(1,3) by simp
  from seq_tasks_exec [OF f(6) p0 w0 f(10) c0]
  obtain s1 where s1: "exec (concat (replicate (length cols) (seq_round (collectProgress s0)))) s0 = Some s1"
    "mainpc s1 = MSending" "pending s1 = []" "workers s1 = workers s0" "ctx s1 = ctx s0"
    "eg_err s1 = eg_err s0"
    by auto
  let ?s2 = "s1\<lparr>mainpc := MWaiting\<rparr>"
  have s2: "step CloseTasks s1 = Some ?s2" using s1 by simp
  let ?s3 = "?s2\<lparr>workers := replicate (0 + ?n) (WDone None)\<rparr>"
  have s3: "exec (map RecvClosed [0..<0 + ?n]) ?s2 = Some ?s3"
    by (rule seq_close_exec) (use s1 f(7) in simp_all)
  have d: "list_all is_done (workers ?s3)" by (simp add: list_all_length)
  obtain r st' where cl: "Close (Archive (opts ?s3)) (sink ?s3) = (r, st')"
    by (cases "Close (Archive (opts ?s3)) (sink ?s3)")
  have s4: "step Wait ?s3 = Some (?s3\<lparr>sink := st', close_log := close_log ?s3 @ [r], mainpc := MReturned r\<rparr>)"
    using d cl s1(6) f(8) by simp
  let ?s4 = "?s3\<lparr>sink := st', close_log := close_log ?s3 @ [r], mainpc := MReturned r\<rparr>"
  have "exec (seq_schedule (Progress options \<noteq> None) (length cols) ?n) s0 = Some ?s4"
    using s1(1) s2 s3 s4 f(3) by (simp add: seq_schedule_def exec_append)
  moreover have "mainpc ?s4 = MReturned r" "ctx ?s4 = cx" using s1(5) f(4) by simp_all
  ultimately show ?thesis by blast
qed

lemma returned_live_result:
  assumes "CreateSupportBundle_init cx options st cols = Inr s0" and "reach s0 s"
    and "mainpc s = MReturned r" and "ctx_err (ctx s) = None"
  shows "\<exists>st'. r = fst (Close (Archive options) st')"
proof -
  have c: "consistent s" using assms(1,2) by (rule reach_consistent)
  then have e: "inv_err s" and cl: "inv_close s" by (simp_all add: consistent_def)
  have o: "Archive (opts s) = Archive options"
    using reach_frame [OF assms(2)] init_fields(1) [OF assms(1)] by simp
  have "eg_err s = None"
  proof (cases "eg_err s")
    case (Some e')
    with e have "ctx_err (ctx s) = Some e'" unfolding inv_err_def by blast
    with assms(4) show ?thesis by simp
  qed simp
  with cl assms(3) have "close_log s = [r]" unfolding inv_close_def by blast
  with cl o show ?thesis unfolding inv_close_def by auto
qed

lemma reach_sink_ledger:
  assumes init: "CreateSupportBundle_init cx options st cols = Inr s0"
    and ar: "Archive options = testArchive"
    and bodies: "\<forall>c. Some c \<in> set cols \<longrightarrow> (\<exists>d. collect c cx (opts s0) = (Some d, None))"
    and r: "reach s0 s"
  shows "sink_ledger cx (opts s0) st cols s"
  using r
proof (rule reach_invariant)
  note f = init_fields [OF init]
  have "inv_main s0" using init_consistent [OF init] by (simp add: consistent_def)
  moreover have "image_mset Some (mset [] + running (workers s0)) + mset (pending s0) = mset cols"
    using f by simp
  moreover have "sink s0 = st ++ map_of (map (entry cx (opts s0)) [])" using f by simp
  ultimately show "sink_ledger cx (opts s0) st cols s0"
    unfolding sink_ledger_def using f(4) by blast
next
  fix e t t'
  assume "sink_ledger cx (opts s0) st cols t" and "step e t = Some t'"
  then show "sink_ledger cx (opts s0) st cols t'"
    by (rule sink_ledger_step) (use ar bodies init_fields(1) [OF init] in simp_all)
qed

lemma returned_sink:
  assumes init: "CreateSupportBundle_init cx options st cols = Inr s0"
    and ar: "Archive options = testArchive"
    and bodies: "\<forall>c. Some c \<in> set cols \<longrightarrow> (\<exists>d. collect c cx (opts s0) = (Some d, None))"
    and r: "reach s0 s" and ret: "mainpc s = MReturned r" and live: "ctx_err (ctx s) = None"
  shows "\<exists>ds. mset (map Some ds) = mset cols \<and> sink s = st ++ map_of (map (entry cx (opts s0)) ds)"
proof -
  from reach_sink_ledger [OF init ar bodies r] live
  obtain ds where l: "image_mset Some (mset ds + running (workers s)) + mset (pending s) = mset cols"
    and k: "sink s = st ++ map_of (map (entry cx (opts s0)) ds)"
    unfolding sink_ledger_def by blast
  from returned_all_handed_over [OF init r ret]
  have "pending s = []" "running (workers s) = {#}" by (simp_all add: all_done_idle)
  with l have "mset (map Some ds) = mset cols" by simp
  with k show ?thesis by blast
qed

lemma digit_char_inj: "d < 10 \<Longrightarrow> e < 10 \<Longrightarrow> digit_char d = digit_char e \<Longrightarrow> d = e"
proof -
  assume a: "d < 10" "e < 10" "digit_char d = digit_char e"
  then have "of_char (char_of (48 + d)) = (of_char (char_of (48 + e)) :: nat)"
    by (simp add: digit_char_def)
  with a(1,2) show "d = e" by simp
qed

lemma Sprintf_d_not_Nil: "Sprintf_d n \<noteq> []"
  by (subst Sprintf_d.simps) simp

lemma Sprintf_d_inj: "Sprintf_d n = Sprintf_d m \<Longrightarrow> n = m"
proof (induction n arbitrary: m rule: Sprintf_d.induct)
  case (1 n)
  show ?case
  proof (cases "n < 10")
    case True
    show ?thesis
    proof (cases "m < 10")
      case m: True
      with True "1.prems" have "digit_char n = digit_char m"
        by (simp add: Sprintf_d.simps [of n] Sprintf_d.simps [of m])
      with True m show ?thesis by (rule digit_char_inj)
    next
      case m: False
      with True "1.prems" have "[digit_char n] = Sprintf_d (m div 10) @ [digit_char (m mod 10)]"
        by (simp add: Sprintf_d.simps [of n] Sprintf_d.simps [of m])
      then have "Sprintf_d (m div 10) = []" by simp
      then show ?thesis using Sprintf_d_not_Nil by blast
    qed
  next
    case False
    show ?thesis
    proof (cases "m < 10")
      case m: True
      with False "1.prems" have "Sprintf_d (n div 10) @ [digit_char (n mod 10)] = [digit_char m]"
        by (simp add: Sprintf_d.simps [of n] Sprintf_d.simps [of m])
      then have "Sprintf_d (n div 10) = []" by simp
      then show ?thesis using Sprintf_d_not_Nil by blast
    next
      case m: False
      with False "1.prems"
      have "Sprintf_d (n div 10) @ [digit_char (n mod 10)] = Sprintf_d (m div 10) @ [digit_char (m mod 10)]"
        by (simp add: Sprintf_d.simps [of n] Sprintf_d.simps [of m])
      then have a: "Sprintf_d (n div 10) = Sprintf_d (m div 10)"
        and b: "digit_char (n mod 10) = digit_char (m mod 10)"
        by simp_all
      from "1.IH" [OF False a] have "n div 10 = m div 10" .
      moreover from b have "n mod 10 = m mod 10" by (intro digit_char_inj) simp_all
      ultimately show ?thesis by (metis div_mult_mod_eq)
    qed
  qed
qed

lemma test_labels:
  "map (source \<circ> the) (TestCollectWithProgress_cols :: 'a Collector option list)
     = map (\<lambda>i. Sprintf_d (i div 10 + 1)) [0..<1000]"
  by (simp add: TestCollectWithProgress_cols_def relabel_body_def comp_def)

lemma count_list_filter: "count_list xs x = length (filter (\<lambda>y. y = x) xs)"
  by (induction xs) simp_all

lemma group_size:
  assumes "1 \<le> g" and "g \<le> 100"
  shows "length (filter (\<lambda>i. i div 10 + 1 = g) [0..<1000]) = 10"
proof -
  have "{i. i < 1000 \<and> i div 10 + 1 = g} = {10 * (g - 1)..<10 * g}"
    using assms by auto
  then have "card {i. i < 1000 \<and> i div 10 + 1 = g} = 10" using assms by simp
  then show ?thesis by (simp add: length_filter_conv_card cong: conj_cong)
qed

lemma test_label_count:
  assumes "1 \<le> g" and "g \<le> 100"
  shows "count_list (map (source \<circ> the) (TestCollectWithProgress_cols :: 'a Collector option list))
           (Sprintf_d g) = 10"
proof -
  have "count_list (map (\<lambda>i. Sprintf_d (i div 10 + 1)) [0..<1000]) (Sprintf_d g)
        = length (filter (\<lambda>i. Sprintf_d (i div 10 + 1) = Sprintf_d g) [0..<1000])"
    by (simp add: count_list_filter filter_map comp_def)
  also have "\<dots> = length (filter (\<lambda>i. i div 10 + 1 = g) [0..<1000])"
    by (rule arg_cong [where f = length], rule filter_cong) (auto dest: Sprintf_d_inj)
  also have "\<dots> = 10" using assms by (rule group_size)
  finally show ?thesis by (simp only: test_labels)
qed

lemma test_label_range:
  assumes "k \<in> set (map (source \<circ> the) (TestCollectWithProgress_cols :: 'a Collector option list))"
  shows "\<exists>g\<in>{1..100}. k = Sprintf_d g"
proof -
  from assms obtain i where "i < 1000" "k = Sprintf_d (i div 10 + 1)"
    unfolding test_labels by auto
  moreover from this have "i div 10 + 1 \<in> {1..100}" by auto
  ultimately show ?thesis by blast
qed

lemma test_cols_no_nil: "None \<notin> set TestCollectWithProgress_cols"
  by (auto simp: TestCollectWithProgress_cols_def)

lemma calculateTotals_loop_total:
  "None \<notin> set cols \<Longrightarrow> \<exists>t. calculateTotals_loop res cols = Inr t"
  by (induction res cols rule: calculateTotals_loop.induct) auto

lemma init_total:
  assumes "None \<notin> set cols"
  shows "\<exists>s0. CreateSupportBundle_init cx options st cols = Inr s0"
proof -
  from calculateTotals_loop_total [OF assms] obtain t where "calculateTotals cols = Inr t"
    unfolding calculateTotals_def by blast
  then show ?thesis by (simp add: CreateSupportBundle_init_def Let_def)
qed

lemma reach_event_ledger:
  assumes init: "CreateSupportBundle_init cx options st cols = Inr s0"
    and pr: "Progress options \<noteq> None" and r: "reach s0 s"
  shows "event_ledger cols s"
  using r
proof (rule reach_invariant)
  note f = init_fields [OF init]
  have "inv_main s0" using init_consistent [OF init] by (simp add: consistent_def)
  moreover have "None \<notin> set cols"
    using f(2) by (auto simp: calculateTotals_def dest: calculateTotals_loop_Inr)
  ultimately show "event_ledger cols s0"
    using f pr by (simp add: event_ledger_def emitted_def)
next
  fix e t t'
  assume "event_ledger cols t" and "step e t = Some t'"
  then show "event_ledger cols t'" by (rule event_ledger_step)
qed

lemma returned_events:
  assumes init: "CreateSupportBundle_init cx options st cols = Inr s0"
    and pr: "Progress options \<noteq> None" and r: "reach s0 s"
    and ret: "mainpc s = MReturned res" and live: "ctx_err (ctx s) = None"
  shows "mset (map Source (emitted s)) = mset (map (source \<circ> the) cols)"
proof -
  from reach_event_ledger [OF init pr r] live
  have "image_mset Source (mset (emitted s)) + image_mset Source (sending (workers s)) +
        image_mset source (running (workers s)) + image_mset (source \<circ> the) (mset (pending s))
        = image_mset (source \<circ> the) (mset cols)"
    by (simp add: event_ledger_def)
  moreover from returned_all_handed_over [OF init r ret]
  have "pending s = []" "running (workers s) = {#}" "sending (workers s) = {#}"
    by (simp_all add: all_done_idle)
  ultimately show ?thesis by simp
qed

lemma emitted_totals:
  assumes init: "CreateSupportBundle_init cx options st cols = Inr s0" and r: "reach s0 s"
    and p: "p \<in> set (emitted s)"
  shows "Total p = int (count_list (map (source \<circ> the) cols) (Source p))"
proof -
  have "inv_progress s" using reach_consistent [OF init r] by (simp add: consistent_def)
  with p have "Total p = lookup0 (totals s) (Source p)" by (simp add: inv_progress_def)
  moreover have "totals s = totals s0" using reach_frame [OF r] by simp
  ultimately show ?thesis
    using calculateTotals_count(1) [OF init_fields(2) [OF init]] by simp
qed

lemma map_const_replicate: "\<forall>x\<in>set xs. f x = c \<Longrightarrow> map f xs = replicate (length xs) c"
  by (induction xs) simp_all

lemmas path_defs =
  filepath_Join_def filepath_Clean_def

lemma for_each_distinct:
  assumes "distinct ps" and "set ps \<subseteq> dom h"
  shows "\<exists>h'. for_each body h ps = Inr h' \<and>
           (\<forall>p\<in>set ps. h' p = Some (body (the (h p)))) \<and> (\<forall>p. p \<notin> set ps \<longrightarrow> h' p = h p)"
  using assms
proof (induction ps arbitrary: h)
  case Nil
  then show ?case by simp
next
  case (Cons p ps)
  from Cons.prems obtain c where c: "h p = Some c" by auto
  let ?h1 = "h(p \<mapsto> body c)"
  from Cons.prems have "distinct ps" "set ps \<subseteq> dom ?h1" by auto
  from Cons.IH [OF this] obtain h' where h': "for_each body ?h1 ps = Inr h'"
    "\<forall>q\<in>set ps. h' q = Some (body (the (?h1 q)))" "\<forall>q. q \<notin> set ps \<longrightarrow> h' q = ?h1 q"
    by blast
  from Cons.prems have n: "p \<notin> set ps" by simp
  have "for_each body h (p # ps) = Inr h'" using c h'(1) by simp
  moreover have "\<forall>q\<in>set (p # ps). h' q = Some (body (the (h q)))"
    using h'(2,3) n c by auto
  moreover have "\<forall>q. q \<notin> set (p # ps) \<longrightarrow> h' q = h q" using h'(3) by auto
  ultimately show ?case by blast
qed

lemma map_of_agree:
  assumes "(k, v) \<in> set xs" and "\<forall>v'. (k, v') \<in> set xs \<longrightarrow> v' = v"
  shows "map_of xs k = Some v"
proof -
  from assms(1) have "k \<in> fst ` set xs" by force
  then obtain v' where v': "map_of xs k = Some v'"
    by (cases "map_of xs k") (simp_all add: map_of_eq_None_iff)
  then have "(k, v') \<in> set xs" by (rule map_of_SomeD)
  with assms(2) v' show ?thesis by simp
qed

lemma returned_entry:
  assumes init: "CreateSupportBundle_init cx options Map.empty cols = Inr s0"
    and ar: "Archive options = testArchive"
    and bodies: "\<forall>c. Some c \<in> set cols \<longrightarrow> (\<exists>d. collect c cx (opts s0) = (Some d, None))"
    and r: "reach s0 s" and ret: "mainpc s = MReturned res" and live: "ctx_err (ctx s) = None"
    and c: "Some c \<in> set cols"
    and same: "\<forall>c'. Some c' \<in> set cols \<and> destinationPath c' = destinationPath c \<longrightarrow>
                 collect c' cx (opts s0) = collect c cx (opts s0)"
  shows "sink s (destinationPath c) = fst (collect c cx (opts s0))"
proof -
  from returned_sink [OF init ar bodies r ret live]
  obtain ds where ds: "mset (map Some ds) = mset cols"
    and k: "sink s = map_of (map (entry cx (opts s0)) ds)"
    by auto
  from ds have sets: "set cols = Some ` set ds" by (metis mset_eq_setD set_map)
  with c have "c \<in> set ds" by auto
  then have 1: "(destinationPath c, the (fst (collect c cx (opts s0)))) \<in> set (map (entry cx (opts s0)) ds)"
    by (auto simp: entry_def)
  have 2: "\<forall>v'. (destinationPath c, v') \<in> set (map (entry cx (opts s0)) ds) \<longrightarrow>
             v' = the (fst (collect c cx (opts s0)))"
  proof (intro allI impI)
    fix v' assume "(destinationPath c, v') \<in> set (map (entry cx (opts s0)) ds)"
    then obtain c' where c': "c' \<in> set ds" "destinationPath c' = destinationPath c"
      "v' = the (fst (collect c' cx (opts s0)))"
      by (auto simp: entry_def)
    with sets same have "collect c' cx (opts s0) = collect c cx (opts s0)" by auto
    with c'(3) show "v' = the (fst (collect c cx (opts s0)))" by simp
  qed
  from bodies c obtain d where "collect c cx (opts s0) = (Some d, None)" by blast
  with map_of_agree [OF 1 2] k show ?thesis by simp
qed

lemma Join_n1_1: "filepath_Join [''n1'', ''1''] = ''n1/1''"
  by (simp add: path_defs)

lemma TestCollect_cols_eq:
  "TestCollect_cols =
     Inr [Some (NewCollector ''1'' (returns ''something'')),
          Some (NewCollector ''1'' (returns ''something'')),
          Some (scope_body ''n1'' (NewCollector ''1'' (returns ''another'')))]"
  by (simp add: TestCollect_cols_def TestCollect_store_def WithNode_def deref_def)

lemma TestCollect_run:
  fixes s0 s :: "(string \<rightharpoonup> bytes) state"
  assumes cols: "TestCollect_cols = Inr cols"
    and init: "CreateSupportBundle_init cx options Map.empty cols = Inr s0"
    and ar: "Archive options = testArchive"
    and r: "reach s0 s" and ret: "mainpc s = MReturned res" and live: "ctx_err (ctx s) = None"
  shows "sink s ''n1/1'' = Some ''another'' \<and> sink s ''1'' = Some ''something'' \<and>
         totals s ''n1'' = Some 1"
proof -
  let ?c1 = "NewCollector ''1'' (returns ''something'') :: (string \<rightharpoonup> bytes) Collector"
  let ?c3 = "scope_body ''n1'' (NewCollector ''1'' (returns ''another'')) :: (string \<rightharpoonup> bytes) Collector"
  from cols have c: "cols = [Some ?c1, Some ?c1, Some ?c3]" by (simp add: TestCollect_cols_eq)
  have p1: "destinationPath ?c1 = ''1''" and p3: "destinationPath ?c3 = ''n1/1''"
    by (simp_all add: NewCollector_def scope_body_def Join_n1_1)
  have b1: "collect ?c1 cx' options' = (Some ''something'', None)"
    and b3: "collect ?c3 cx' options' = (Some ''another'', None)" for cx' options'
    by (simp_all add: NewCollector_def scope_body_def returns_def)
  have bodies: "\<forall>c. Some c \<in> set cols \<longrightarrow> (\<exists>d. collect c cx (opts s0) = (Some d, None))"
    using c b1 b3 by auto
  have "sink s (destinationPath ?c3) = fst (collect ?c3 cx (opts s0))"
    by (rule returned_entry [OF init ar bodies r ret live]) (use c p1 p3 in auto)
  then have 1: "sink s ''n1/1'' = Some ''another''" by (simp only: p3 b3 fst_conv)
  have "sink s (destinationPath ?c1) = fst (collect ?c1 cx (opts s0))"
    by (rule returned_entry [OF init ar bodies r ret live]) (use c p1 p3 b1 in auto)
  then have 2: "sink s ''1'' = Some ''something''" by (simp only: p1 b1 fst_conv)
  have "totals s = totals s0" using reach_frame [OF r] by simp
  then have 3: "totals s ''n1'' = Some 1"
    using calculateTotals_count(2) [OF init_fields(2) [OF init], of "''n1''"] c
    by (simp add: NewCollector_def scope_body_def Cluster_def)
  from 1 2 3 show ?thesis by blast
qed

lemma weight_update:
  "i < length ws \<Longrightarrow>
     sum_list (map weight (ws[i := w])) + weight (ws ! i) = sum_list (map weight ws) + weight w"
proof (induction ws arbitrary: i)
  case Nil
  then show ?case by simp
next
  case (Cons a ws)
  show ?case
  proof (cases i)
    case 0
    then show ?thesis by simp
  next
    case (Suc j)
    with Cons.prems have "j < length ws" by simp
    from Cons.IH [OF this] Suc show ?thesis by simp
  qed
qed

lemma weight_simps [simp]:
  "weight WSelect = 1" "weight (WRun c) = 3" "weight (WSend p) = 2" "weight (WDone r) = 0"
  by (simp_all add: weight_def)

lemma weight_after_run: "weight (after_run s c r) \<le> 2"
  by (simp add: after_run_def)

lemma inv_live_step:
  assumes "inv_live s" and "inv_main s" and "step e s = Some s'"
  shows "inv_live s'"
  using assms(3)
proof (cases rule: step_cases)
  case (Cancel er)
  then show ?thesis by (simp add: inv_live_def)
next
  case (Recv i t ts)
  with assms(2) obtain c where "t = Some c" by (cases t) (auto simp: inv_main_def)
  with Recv assms(1) show ?thesis by (auto simp: inv_live_def nth_list_update)
next
  case CloseTasks
  then show ?thesis by (simp add: inv_live_def)
next
  case (RecvClosed i)
  then show ?thesis by (simp add: inv_live_def)
next
  case (CtxDone i er)
  then show ?thesis by (simp add: inv_live_def)
next
  case (RunTask i c r st')
  with assms(1) show ?thesis by (auto simp: inv_live_def nth_list_update after_run_def)
next
  case (SendBuf i p cap)
  with assms(1) show ?thesis by (auto simp: inv_live_def nth_list_update)
next
  case (SendDirect i p cap)
  with assms(1) show ?thesis by (auto simp: inv_live_def nth_list_update)
next
  case (SendAbort i p er)
  then show ?thesis by (simp add: inv_live_def)
next
  case (Consume p ps)
  with assms(1) show ?thesis by (simp add: inv_live_def)
next
  case (Wait_err er)
  then show ?thesis by (simp add: inv_live_def)
next
  case (Wait_close r st')
  then show ?thesis by (simp add: inv_live_def)
qed

lemma worker_shapes:
  "(\<exists>i c. i < length ws \<and> ws ! i = WRun c) \<or> (\<exists>i p. i < length ws \<and> ws ! i = WSend p) \<or>
   (\<exists>i. i < length ws \<and> ws ! i = WSelect) \<or> list_all is_done ws"
proof (induction ws)
  case Nil
  then show ?case by simp
next
  case (Cons a ws)
  show ?case
  proof (cases a)
    case WSelect
    then have "0 < length (a # ws) \<and> (a # ws) ! 0 = WSelect" by simp
    then show ?thesis by blast
  next
    case (WRun c)
    then have "0 < length (a # ws) \<and> (a # ws) ! 0 = WRun c" by simp
    then show ?thesis by blast
  next
    case (WSend p)
    then have "0 < length (a # ws) \<and> (a # ws) ! 0 = WSend p" by simp
    then show ?thesis by blast
  next
    case (WDone r)
    from Cons.IH show ?thesis
    proof (elim disjE exE conjE)
      fix i c assume "i < length ws" "ws ! i = WRun c"
      then have "Suc i < length (a # ws) \<and> (a # ws) ! Suc i = WRun c" by simp
      then show ?thesis by blast
    next
      fix i p assume "i < length ws" "ws ! i = WSend p"
      then have "Suc i < length (a # ws) \<and> (a # ws) ! Suc i = WSend p" by simp
      then show ?thesis by blast
    next
      fix i assume "i < length ws" "ws ! i = WSelect"
      then have "Suc i < length (a # ws) \<and> (a # ws) ! Suc i = WSelect" by simp
      then show ?thesis by blast
    next
      assume "list_all is_done ws"
      with WDone show ?thesis by simp
    qed
  qed
qed

lemma progress_step:
  assumes c: "consistent s" and lv: "inv_live s" and live: "ctx_err (ctx s) = None"
    and w: "workers s \<noteq> []" and nr: "\<forall>r. mainpc s \<noteq> MReturned r"
  shows "\<exists>e s'. step e s = Some s' \<and> remaining s' < remaining s \<and> ctx s' = ctx s"
proof (cases "progress_buf s")
  case (Cons p ps)
  then have "step Consume s = Some (s\<lparr>progress_buf := ps, progress_recv := progress_recv s @ [p]\<rparr>)"
    by simp
  moreover have "remaining (s\<lparr>progress_buf := ps, progress_recv := progress_recv s @ [p]\<rparr>) < remaining s"
    using Cons by (simp add: remaining_def)
  ultimately show ?thesis by fastforce
next
  case Nil
  from c have m: "inv_main s" and e: "inv_err s" and pr: "inv_progress s"
    by (simp_all add: consistent_def)
  from worker_shapes [of "workers s"] show ?thesis
  proof (elim disjE exE conjE)
    fix i c' assume i: "i < length (workers s)" "workers s ! i = WRun c'"
    obtain r st' where run: "Run c' (ctx s) (opts s) (sink s) = (r, st')"
      by (cases "Run c' (ctx s) (opts s) (sink s)")
    let ?s' = "s\<lparr>sink := st', workers := (workers s)[i := after_run s c' r]\<rparr>"
    have "step (RunTask i) s = Some ?s'"
      using i run by (simp add: worker_at_def set_worker_def)
    moreover have "remaining ?s' < remaining s"
      using weight_update [OF i(1), of "after_run s c' r"] i(2) weight_after_run [of s c' r]
      by (simp add: remaining_def)
    ultimately show ?thesis by fastforce
  next
    fix i p assume i: "i < length (workers s)" "workers s ! i = WSend p"
    with pr have "Progress (opts s) \<noteq> None" unfolding inv_progress_def by blast
    then obtain cap where cap: "Progress (opts s) = Some cap" by auto
    let ?s' = "s\<lparr>progress_recv := progress_recv s @ [p], workers := (workers s)[i := WSelect]\<rparr>"
    have "step (SendDirect i) s = Some ?s'"
      using i cap Nil by (simp add: worker_at_def set_worker_def)
    moreover have "remaining ?s' < remaining s"
      using weight_update [OF i(1), of WSelect] i(2) by (simp add: remaining_def)
    ultimately show ?thesis by fastforce
  next
    fix i assume i: "i < length (workers s)" "workers s ! i = WSelect"
    show ?thesis
    proof (cases "mainpc s")
      case MSending
      show ?thesis
      proof (cases "pending s")
        case Nil
        with MSending have "step CloseTasks s = Some (s\<lparr>mainpc := MWaiting\<rparr>)" by simp
        moreover have "remaining (s\<lparr>mainpc := MWaiting\<rparr>) < remaining s"
          using MSending by (simp add: remaining_def)
        ultimately show ?thesis by fastforce
      next
        case (Cons t ts)
        let ?w = "case t of None \<Rightarrow> WDone None | Some c \<Rightarrow> WRun c"
        let ?s' = "s\<lparr>pending := ts, workers := (workers s)[i := ?w]\<rparr>"
        have "step (Recv i) s = Some ?s'"
          using i Cons MSending by (simp add: worker_at_def set_worker_def)
        moreover have "weight ?w \<le> 3" by (cases t) simp_all
        then have "remaining ?s' < remaining s"
          using weight_update [OF i(1), of ?w] i(2) Cons by (simp add: remaining_def)
        ultimately show ?thesis by fastforce
      qed
    next
      case MWaiting
      let ?s' = "s\<lparr>workers := (workers s)[i := WDone None]\<rparr>"
      have "step (RecvClosed i) s = Some ?s'"
        using i MWaiting by (simp add: worker_at_def set_worker_def)
      moreover have "remaining ?s' < remaining s"
        using weight_update [OF i(1), of "WDone None"] i(2) by (simp add: remaining_def)
      ultimately show ?thesis by fastforce
    next
      case (MReturned r)
      with nr show ?thesis by simp
    qed
  next
    assume d: "list_all is_done (workers s)"
    from w have l: "0 < length (workers s)" by simp
    show ?thesis
    proof (cases "mainpc s")
      case MSending
      with lv live l have "\<not> is_done (workers s ! 0)" unfolding inv_live_def by blast
      with d l show ?thesis by (simp add: list_all_length)
    next
      case MWaiting
      have g: "eg_err s = None"
      proof (cases "eg_err s")
        case (Some e')
        with e have "ctx_err (ctx s) = Some e'" unfolding inv_err_def by blast
        with live show ?thesis by simp
      qed simp
      obtain r st' where cl: "Close (Archive (opts s)) (sink s) = (r, st')"
        by (cases "Close (Archive (opts s)) (sink s)")
      let ?s' = "s\<lparr>sink := st', close_log := close_log s @ [r], mainpc := MReturned r\<rparr>"
      have "step Wait s = Some ?s'" using MWaiting d g cl by simp
      moreover have "remaining ?s' < remaining s" using MWaiting by (simp add: remaining_def)
      ultimately show ?thesis by fastforce
    next
      case (MReturned r)
      with nr show ?thesis by simp
    qed
  qed
qed

lemma can_return:
  assumes "consistent s" and "inv_live s" and "ctx_err (ctx s) = None" and "workers s \<noteq> []"
  shows "\<exists>s'. reach s s' \<and> (\<exists>r. mainpc s' = MReturned r) \<and> ctx s' = ctx s"
  using assms
proof (induction "remaining s" arbitrary: s rule: less_induct)
  case less
  show ?case
  proof (cases "\<exists>r. mainpc s = MReturned r")
    case True
    with reach_refl [of s] show ?thesis by blast
  next
    case False
    then have "\<forall>r. mainpc s \<noteq> MReturned r" by simp
    from progress_step [OF less.prems this]
    obtain e s1 where s1: "step e s = Some s1" "remaining s1 < remaining s" "ctx s1 = ctx s"
      by blast
    have c1: "consistent s1" using less.prems(1) s1(1) by (rule consistent_step)
    have "inv_main s" using less.prems(1) by (simp add: consistent_def)
    with less.prems(2) have l1: "inv_live s1" using s1(1) by (rule inv_live_step)
    have w1: "workers s1 \<noteq> []" using step_frame [OF s1(1)] less.prems(4) by auto
    have "ctx_err (ctx s1) = None" using s1(3) less.prems(3) by simp
    from less.hyps [OF s1(2) c1 l1 this w1]
    obtain s' where s': "reach s1 s'" "\<exists>r. mainpc s' = MReturned r" "ctx s' = ctx s1" by blast
    have "reach s s1" using reach_step [OF reach_refl s1(1)] .
    then have "reach s s'" using s'(1) by (rule reach_trans)
    with s'(2,3) s1(3) show ?thesis by auto
  qed
qed

lemma reach_inv_live:
  assumes init: "CreateSupportBundle_init cx options st cols = Inr s0" and r: "reach s0 s"
  shows "inv_live s"
proof -
  have "consistent s \<and> inv_live s"
    using r
  proof (rule reach_invariant)
    have "inv_live s0" using init_fields(7) [OF init] by (simp add: inv_live_def)
    with init_consistent [OF init] show "consistent s0 \<and> inv_live s0" by simp
  next
    fix e t t'
    assume a: "consistent t \<and> inv_live t" and st: "step e t = Some t'"
    then have "inv_main t" by (simp add: consistent_def)
    with a st show "consistent t' \<and> inv_live t'"
      by (blast intro: consistent_step inv_live_step)
  qed
  then show ?thesis ..
qed

lemma live_run_can_return:
  assumes init: "CreateSupportBundle_init cx options st cols = Inr s0"
    and n: "0 \<le> NumWorkers options" and r: "reach s0 s" and live: "ctx_err (ctx s) = None"
  shows "\<exists>t res. reach s t \<and> mainpc t = MReturned res \<and> ctx t = ctx s"
proof -
  have "length (workers s) = length (workers s0)" using reach_frame [OF r] by simp
  moreover have "0 < nat (if NumWorkers options = 0 then 1 else NumWorkers options)"
    using n by simp
  then have "0 < length (workers s0)" using init_fields(7) [OF init] by simp
  ultimately have "workers s \<noteq> []" by auto
  from can_return [OF reach_consistent [OF init r] reach_inv_live [OF init r] live this]
  show ?thesis by blast
qed

lemma run_scheduleI:
  "CreateSupportBundle_init cx options st cols = Inr a \<Longrightarrow> exec es a = Some b \<Longrightarrow>
     run_schedule es cx options st cols = Inr (Some b)"
  by (simp add: run_schedule_def)

section \<open>Collector.Run\<close>

text \<open>
  C5.  For every collector, context, options and archive state: when the body returns a
  non-nil error, \<open>Run\<close> returns that error and the archive is untouched; when the body
  returns a nil payload and a nil error, \<open>Run\<close> returns nil and the archive is untouched;
  otherwise \<open>Run\<close> is the archive's \<open>Write\<close> of the payload at the destination path, its
  error and its effect.
\<close>

theorem C5_Run_contract:
  "(\<forall>e. snd (collect c cx options) = Some e \<longrightarrow> Run c cx options st = (Some e, st)) \<and>
   (collect c cx options = (None, None) \<longrightarrow> Run c cx options st = (None, st)) \<and>
   (\<forall>d. collect c cx options = (Some d, None) \<longrightarrow>
        Run c cx options st = Write (Archive options) (destinationPath c) d st)"
  by (cases "collect c cx options") (auto simp: Run_def split: option.splits)

theorem C5_Run_contract_witness:
  "Run (NewCollector ''1'' (fails ''boom'')) background (test_options 1 None) Map.empty
     = (Some (Err ''boom''), Map.empty) \<and>
   Run (NewCollector ''1'' nothing) background (test_options 1 None) Map.empty
     = (None, Map.empty) \<and>
   Run (NewCollector ''1'' (returns ''something'')) background (test_options 1 None) Map.empty
     = (None, [''1'' \<mapsto> ''something''])"
  using C5_Run_contract [of "NewCollector ''1'' (fails ''boom'')" background "test_options 1 None" Map.empty]
    C5_Run_contract [of "NewCollector ''1'' nothing" background "test_options 1 None" Map.empty]
    C5_Run_contract [of "NewCollector ''1'' (returns ''something'')" background "test_options 1 None" Map.empty]
  by (simp add: NewCollector_def fails_def nothing_def returns_def test_options_def testArchive_def)

section \<open>Closing the archive\<close>

text \<open>
  In every state a call reaches, \<open>Close\<close> has been called at most once, and only when
  every worker has returned and the call itself has returned; the logged result is a
  result of the archive's \<open>Close\<close>; and \<open>Close\<close> has not been called when some worker has
  returned an error.  Once the channel is closed and every worker has returned,
  \<open>eg.Wait()\<close> returns and so does the call.  When the call has returned \<open>r\<close>: if no
  worker returned an error, \<open>Close\<close> was called exactly once and \<open>r\<close> is its result; if
  some worker returned an error \<open>e\<close>, then \<open>r\<close> is \<open>e\<close>.
\<close>

lemma close_discipline:
  assumes "CreateSupportBundle_init cx options st cols = Inr s0" and "reach s0 s"
  shows "length (close_log s) \<le> 1 \<and>
    (close_log s \<noteq> [] \<longrightarrow> list_all is_done (workers s) \<and> (\<exists>r. mainpc s = MReturned r)) \<and>
    (\<forall>r\<in>set (close_log s). \<exists>st'. r = fst (Close (Archive options) st')) \<and>
    (\<forall>i e. i < length (workers s) \<and> workers s ! i = WDone (Some e) \<longrightarrow> close_log s = []) \<and>
    (mainpc s = MWaiting \<and> list_all is_done (workers s) \<longrightarrow>
       (\<exists>s' r. step Wait s = Some s' \<and> mainpc s' = MReturned r)) \<and>
    (\<forall>r. mainpc s = MReturned r \<longrightarrow>
       ((\<forall>i<length (workers s). \<forall>e. workers s ! i \<noteq> WDone (Some e)) \<longrightarrow> close_log s = [r]) \<and>
       (\<forall>i e. i < length (workers s) \<and> workers s ! i = WDone (Some e) \<longrightarrow> r = Some e))"
proof -
  have c: "consistent s" using assms by (rule reach_consistent)
  then have m: "inv_main s" and e: "inv_err s" and cl: "inv_close s"
    by (simp_all add: consistent_def)
  have o: "Archive (opts s) = Archive options"
    using reach_frame [OF assms(2)] init_fields(1) [OF assms(1)] by simp
  have 1: "length (close_log s) \<le> 1"
  proof (cases "\<exists>r. mainpc s = MReturned r")
    case True
    then obtain r where "mainpc s = MReturned r" ..
    with cl show ?thesis by (cases "eg_err s") (auto simp: inv_close_def)
  next
    case False
    with cl show ?thesis by (simp add: inv_close_def)
  qed
  have 2: "close_log s \<noteq> [] \<longrightarrow> list_all is_done (workers s) \<and> (\<exists>r. mainpc s = MReturned r)"
    using cl m unfolding inv_close_def inv_main_def by blast
  have 3: "\<forall>r\<in>set (close_log s). \<exists>st'. r = fst (Close (Archive options) st')"
    using cl o unfolding inv_close_def by simp
  have 4: "close_log s = [r]"
    if "mainpc s = MReturned r" "\<forall>i<length (workers s). \<forall>e. workers s ! i \<noteq> WDone (Some e)" for r
  proof -
    have "eg_err s = None"
    proof (cases "eg_err s")
      case (Some e')
      with e obtain i where "i < length (workers s)" "workers s ! i = WDone (Some e')"
        unfolding inv_err_def by blast
      with that(2) show ?thesis by blast
    qed simp
    with cl that(1) show ?thesis unfolding inv_close_def by blast
  qed
  have 5: "r = Some e'"
    if "mainpc s = MReturned r" "i < length (workers s)" "workers s ! i = WDone (Some e')" for r i e'
  proof -
    from e that(2,3) have "eg_err s = Some e'" unfolding inv_err_def by blast
    with cl that(1) show ?thesis unfolding inv_close_def by blast
  qed
  have 6: "close_log s = []"
    if "i < length (workers s)" "workers s ! i = WDone (Some e')" for i e'
  proof -
    from e that have g: "eg_err s = Some e'" unfolding inv_err_def by blast
    show ?thesis
    proof (cases "\<exists>r. mainpc s = MReturned r")
      case True
      with cl g show ?thesis unfolding inv_close_def by blast
    next
      case False
      with cl show ?thesis unfolding inv_close_def by blast
    qed
  qed
  have 7: "\<exists>s' r. step Wait s = Some s' \<and> mainpc s' = MReturned r"
    if "mainpc s = MWaiting" "list_all is_done (workers s)"
    using that
    by (cases "eg_err s"; cases "Close (Archive (opts s)) (sink s)") simp_all
  show ?thesis
  proof (intro conjI)
    show "length (close_log s) \<le> 1" by (rule 1)
    show "close_log s \<noteq> [] \<longrightarrow> list_all is_done (workers s) \<and> (\<exists>r. mainpc s = MReturned r)"
      by (rule 2)
    show "\<forall>r\<in>set (close_log s). \<exists>st'. r = fst (Close (Archive options) st')" by (rule 3)
    show "\<forall>i e. i < length (workers s) \<and> workers s ! i = WDone (Some e) \<longrightarrow> close_log s = []"
      using 6 by blast
    show "mainpc s = MWaiting \<and> list_all is_done (workers s) \<longrightarrow>
       (\<exists>s' r. step Wait s = Some s' \<and> mainpc s' = MReturned r)"
      using 7 by blast
    show "\<forall>r. mainpc s = MReturned r \<longrightarrow>
       ((\<forall>i<length (workers s). \<forall>e. workers s ! i \<noteq> WDone (Some e)) \<longrightarrow> close_log s = [r]) \<and>
       (\<forall>i e. i < length (workers s) \<and> workers s ! i = WDone (Some e) \<longrightarrow> r = Some e)"
      using 4 5 by blast
  qed
qed

lemma close_discipline_example:
  "\<exists>s0 s t.
     CreateSupportBundle_init background (test_options 1 None) Map.empty
       [Some (NewCollector ''1'' (returns ''something''))] = Inr s0 \<and>
     exec [Recv 0, RunTask 0, CloseTasks, RecvClosed 0, Wait] s0 = Some s \<and>
     mainpc s = MReturned None \<and> workers s = [WDone None] \<and> close_log s = [None] \<and>
     exec [Recv 0, RunTask 0, CloseTasks, Cancel DeadlineExceeded, CtxDone 0, Wait] s0 = Some t \<and>
     mainpc t = MReturned (Some DeadlineExceeded) \<and> workers t = [WDone (Some DeadlineExceeded)] \<and>
     close_log t = []"
proof -
  let ?init = "CreateSupportBundle_init background (test_options 1 None) Map.empty
       [Some (NewCollector ''1'' (returns ''something''))]"
  let ?a = "projr ?init"
  let ?b = "the (exec [Recv 0, RunTask 0, CloseTasks, RecvClosed 0, Wait] ?a)"
  let ?c = "the (exec [Recv 0, RunTask 0, CloseTasks, Cancel DeadlineExceeded, CtxDone 0, Wait] ?a)"
  have i: "?init = Inr ?a" by (simp add: run_defs)
  have es: "exec [Recv 0, RunTask 0, CloseTasks, RecvClosed 0, Wait] ?a = Some ?b"
    by (simp add: run_defs)
  have et: "exec [Recv 0, RunTask 0, CloseTasks, Cancel DeadlineExceeded, CtxDone 0, Wait] ?a = Some ?c"
    by (simp add: run_defs)
  have ms: "mainpc ?b = MReturned None" and ws: "workers ?b = [WDone None]"
    by (simp_all add: run_defs)
  have mt: "mainpc ?c = MReturned (Some DeadlineExceeded)"
    and wt: "workers ?c = [WDone (Some DeadlineExceeded)]"
    by (simp_all add: run_defs)
  have "close_log ?b = [None]"
    using close_discipline [OF i reachI [OF es]] ms ws by simp
  moreover have "close_log ?c = []"
    using close_discipline [OF i reachI [OF et]] mt wt by simp
  ultimately show ?thesis using i es et ms ws mt wt by blast
qed

section \<open>The options object\<close>

text \<open>
  C9 (amended).  During a call the options object behind the caller's pointer differs from
  the one passed in at most in \<open>NumWorkers\<close>, which \<open>CreateSupportBundle\<close> sets to 1 when it
  is 0; every other field keeps its value, and when \<open>NumWorkers\<close> is not 0 the object is
  unchanged.
\<close>

theorem C9_options_frame:
  assumes "CreateSupportBundle_init cx options st cols = Inr s0" and "reach s0 s"
  shows "opts s = options\<lparr>NumWorkers := (if NumWorkers options = 0 then 1 else NumWorkers options)\<rparr> \<and>
    TalosClient (opts s) = TalosClient options \<and>
    KubernetesClient (opts s) = KubernetesClient options \<and>
    Archive (opts s) = Archive options \<and>
    LogOutput (opts s) = LogOutput options \<and>
    Progress (opts s) = Progress options \<and>
    Nodes (opts s) = Nodes options \<and>
    (NumWorkers options \<noteq> 0 \<longrightarrow> opts s = options)"
  using reach_frame [OF assms(2)] init_fields(1) [OF assms(1)] by simp

theorem C9_options_frame_witness:
  "\<exists>s0 s. CreateSupportBundle_init background (test_options 5 None) Map.empty
       [Some (NewCollector ''1'' (returns ''something''))] = Inr s0 \<and>
     exec [Recv 3, RunTask 3, CloseTasks, RecvClosed 0, RecvClosed 1, RecvClosed 2, RecvClosed 3,
           RecvClosed 4, Wait] s0 = Some s \<and>
     mainpc s = MReturned None \<and> opts s = test_options 5 None"
proof -
  let ?init = "CreateSupportBundle_init background (test_options 5 None) Map.empty
       [Some (NewCollector ''1'' (returns ''something''))]"
  let ?a = "projr ?init"
  let ?es = "[Recv 3, RunTask 3, CloseTasks, RecvClosed 0, RecvClosed 1, RecvClosed 2, RecvClosed 3,
           RecvClosed 4, Wait]"
  let ?b = "the (exec ?es ?a)"
  have i: "?init = Inr ?a" by (simp add: run_defs)
  have e: "exec ?es ?a = Some ?b" by (simp add: run_defs eval_nat_numeral)
  have m: "mainpc ?b = MReturned None" by (simp add: run_defs eval_nat_numeral)
  have n: "NumWorkers (test_options 5 None) \<noteq> 0" by (simp add: test_options_def)
  have "opts ?b = test_options 5 None"
    using C9_options_frame [OF i reachI [OF e]] n by blast
  with i e m show ?thesis by blast
qed

theorem C9_counterexample:
  "NumWorkers (test_options 0 None) = 0 \<and>
   map_sum id (map_option mainpc)
     (run_schedule [CloseTasks, RecvClosed 0, Wait] background (test_options 0 None) Map.empty [])
     = Inr (Some (MReturned None)) \<and>
   map_sum id (map_option (NumWorkers \<circ> opts))
     (run_schedule [CloseTasks, RecvClosed 0, Wait] background (test_options 0 None) Map.empty [])
     = Inr (Some 1)"
  by (simp add: run_defs)

text \<open>
  C8.  With \<open>NumWorkers\<close> 0 and with \<open>NumWorkers\<close> 1 the call starts in the same state, and
  so reaches the same state under every schedule: the same returned error or success and
  the same archive contents.  For a list without nil, the call with \<open>NumWorkers\<close> 0 does
  start: the options object then holds \<open>NumWorkers\<close> 1, exactly one worker exists, the
  collectors are all to be sent, and there is a run in which the call returns.  In every
  state a call with \<open>NumWorkers\<close> 0 reaches, the options hold 1 and there is one worker.
\<close>

theorem C8_zero_workers_is_one:
  "CreateSupportBundle_init cx (options\<lparr>NumWorkers := 0\<rparr>) st cols
     = CreateSupportBundle_init cx (options\<lparr>NumWorkers := 1\<rparr>) st cols \<and>
   run_schedule es cx (options\<lparr>NumWorkers := 0\<rparr>) st cols
     = run_schedule es cx (options\<lparr>NumWorkers := 1\<rparr>) st cols \<and>
   map_sum id (map_option mainpc) (run_schedule es cx (options\<lparr>NumWorkers := 0\<rparr>) st cols)
     = map_sum id (map_option mainpc) (run_schedule es cx (options\<lparr>NumWorkers := 1\<rparr>) st cols) \<and>
   map_sum id (map_option sink) (run_schedule es cx (options\<lparr>NumWorkers := 0\<rparr>) st cols)
     = map_sum id (map_option sink) (run_schedule es cx (options\<lparr>NumWorkers := 1\<rparr>) st cols) \<and>
   (None \<notin> set cols \<longrightarrow>
      (\<exists>s0. CreateSupportBundle_init cx (options\<lparr>NumWorkers := 0\<rparr>) st cols = Inr s0 \<and>
            opts s0 = options\<lparr>NumWorkers := 1\<rparr> \<and> workers s0 = [WSelect] \<and>
            pending s0 = cols \<and> sink s0 = st \<and> mainpc s0 = MSending \<and>
            (\<exists>s r. reach s0 s \<and> mainpc s = MReturned r \<and> ctx s = cx))) \<and>
   (\<forall>s0 s. CreateSupportBundle_init cx (options\<lparr>NumWorkers := 0\<rparr>) st cols = Inr s0 \<and> reach s0 s \<longrightarrow>
      NumWorkers (opts s) = 1 \<and> length (workers s) = 1)"
proof -
  let ?o0 = "options\<lparr>NumWorkers := 0\<rparr>" and ?o1 = "options\<lparr>NumWorkers := 1\<rparr>"
  have 1: "CreateSupportBundle_init cx ?o0 st cols = CreateSupportBundle_init cx ?o1 st cols"
    by (cases "calculateTotals cols") (simp_all add: CreateSupportBundle_init_def Let_def)
  then have 2: "run_schedule es cx ?o0 st cols = run_schedule es cx ?o1 st cols"
    by (simp add: run_schedule_def)
  have f: "opts s0 = ?o1 \<and> workers s0 = [WSelect] \<and> pending s0 = cols \<and> sink s0 = st \<and>
           mainpc s0 = MSending"
    if "CreateSupportBundle_init cx ?o0 st cols = Inr s0" for s0
    using init_fields [OF that] by simp
  have 5: "\<exists>s0. CreateSupportBundle_init cx ?o0 st cols = Inr s0 \<and>
            opts s0 = ?o1 \<and> workers s0 = [WSelect] \<and>
            pending s0 = cols \<and> sink s0 = st \<and> mainpc s0 = MSending \<and>
            (\<exists>s r. reach s0 s \<and> mainpc s = MReturned r \<and> ctx s = cx)"
    if n: "None \<notin> set cols"
  proof -
    from init_total [OF n] obtain s0 where i: "CreateSupportBundle_init cx ?o0 st cols = Inr s0"
      by blast
    have "0 \<le> NumWorkers ?o0" by simp
    from completes [OF i this] have "\<exists>s r. reach s0 s \<and> mainpc s = MReturned r \<and> ctx s = cx"
      by (blast intro: reachI)
    with i f [OF i] show ?thesis by blast
  qed
  have 6: "NumWorkers (opts s) = 1 \<and> length (workers s) = 1"
    if "CreateSupportBundle_init cx ?o0 st cols = Inr s0" "reach s0 s" for s0 s
    using reach_frame [OF that(2)] f [OF that(1)] by simp
  show ?thesis
  proof (intro conjI)
    show "CreateSupportBundle_init cx ?o0 st cols = CreateSupportBundle_init cx ?o1 st cols" by (rule 1)
    show "run_schedule es cx ?o0 st cols = run_schedule es cx ?o1 st cols" by (rule 2)
    show "map_sum id (map_option mainpc) (run_schedule es cx ?o0 st cols)
          = map_sum id (map_option mainpc) (run_schedule es cx ?o1 st cols)"
      by (simp only: 2)
    show "map_sum id (map_option sink) (run_schedule es cx ?o0 st cols)
          = map_sum id (map_option sink) (run_schedule es cx ?o1 st cols)"
      by (simp only: 2)
    show "None \<notin> set cols \<longrightarrow>
      (\<exists>s0. CreateSupportBundle_init cx ?o0 st cols = Inr s0 \<and>
            opts s0 = ?o1 \<and> workers s0 = [WSelect] \<and>
            pending s0 = cols \<and> sink s0 = st \<and> mainpc s0 = MSending \<and>
            (\<exists>s r. reach s0 s \<and> mainpc s = MReturned r \<and> ctx s = cx))"
      using 5 by blast
    show "\<forall>s0 s. CreateSupportBundle_init cx ?o0 st cols = Inr s0 \<and> reach s0 s \<longrightarrow>
      NumWorkers (opts s) = 1 \<and> length (workers s) = 1"
      using 6 by blast
  qed
qed

theorem C8_zero_workers_is_one_witness:
  "\<exists>s0 s.
     CreateSupportBundle_init background (test_options 0 None) Map.empty
       [Some (NewCollector ''1'' (returns ''something''))] = Inr s0 \<and>
     opts s0 = test_options 1 None \<and> workers s0 = [WSelect] \<and>
     exec [Recv 0, RunTask 0, CloseTasks, RecvClosed 0, Wait] s0 = Some s \<and>
     mainpc s = MReturned None \<and> sink s ''1'' = Some ''something'' \<and>
     NumWorkers (opts s) = 1 \<and> length (workers s) = 1 \<and>
     run_schedule [Recv 0, RunTask 0, CloseTasks, RecvClosed 0, Wait] background (test_options 0 None)
       Map.empty [Some (NewCollector ''1'' (returns ''something''))] = Inr (Some s) \<and>
     run_schedule [Recv 0, RunTask 0, CloseTasks, RecvClosed 0, Wait] background (test_options 1 None)
       Map.empty [Some (NewCollector ''1'' (returns ''something''))] = Inr (Some s)"
proof -
  let ?cols = "[Some (NewCollector ''1'' (returns ''something''))] :: (string \<rightharpoonup> bytes) Collector option list"
  let ?es = "[Recv 0, RunTask 0, CloseTasks, RecvClosed 0, Wait]"
  let ?o = "test_options 0 None"
  have o0: "?o\<lparr>NumWorkers := 0\<rparr> = test_options 0 None"
    and o1: "?o\<lparr>NumWorkers := 1\<rparr> = test_options 1 None"
    by (simp_all add: test_options_def)
  note t = C8_zero_workers_is_one [of background ?o Map.empty ?cols ?es, unfolded o0 o1]
  have n: "None \<notin> set ?cols" by simp
  let ?init = "CreateSupportBundle_init background (test_options 0 None) Map.empty ?cols"
  let ?a = "projr ?init"
  let ?b = "the (exec ?es ?a)"
  from t n obtain s0 where i0: "?init = Inr s0" and f0: "opts s0 = test_options 1 None"
    "workers s0 = [WSelect]"
    by blast
  from i0 have a: "s0 = ?a" by simp
  have i: "?init = Inr ?a" using i0 a by simp
  have e: "exec ?es ?a = Some ?b" by (simp add: run_defs)
  have m: "mainpc ?b = MReturned None" and k: "sink ?b ''1'' = Some ''something''"
    by (simp_all add: run_defs)
  from t i reachI [OF e] have w: "NumWorkers (opts ?b) = 1 \<and> length (workers ?b) = 1" by blast
  have r0: "run_schedule ?es background (test_options 0 None) Map.empty ?cols = Inr (Some ?b)"
    using i e by (rule run_scheduleI)
  note t2 = t [THEN conjunct2, THEN conjunct1]
  have r1: "run_schedule ?es background (test_options 1 None) Map.empty ?cols = Inr (Some ?b)"
    by (rule trans [OF t2 [symmetric] r0])
  from i f0 a e m k w r0 r1 show ?thesis by blast
qed

section \<open>Nil collectors\<close>

text \<open>
  C10 (amended).  A list of collectors that contains nil makes \<open>CreateSupportBundle\<close> panic
  in \<open>calculateTotals\<close>, before any worker exists.  In a call that does start, no nil is
  ever handed to a worker from the list; a worker receives nil only from the closed
  channel, and then it returns nil and changes nothing else: no body is run, nothing is
  written, no progress value is produced.
\<close>

theorem C10_nil_collector:
  "(None \<in> set cols \<longrightarrow> CreateSupportBundle_init cx options st cols = Inl NilPointerDereference) \<and>
   (CreateSupportBundle_init cx options st cols = Inr s0 \<and> reach s0 s \<longrightarrow>
      None \<notin> set (pending s) \<and>
      (\<forall>i s'. step (RecvClosed i) s = Some s' \<longrightarrow> s' = s\<lparr>workers := (workers s)[i := WDone None]\<rparr>))"
proof (intro conjI impI)
  assume "None \<in> set cols"
  then show "CreateSupportBundle_init cx options st cols = Inl NilPointerDereference"
    by (simp add: CreateSupportBundle_init_def calculateTotals_def calculateTotals_loop_nil)
next
  assume "CreateSupportBundle_init cx options st cols = Inr s0 \<and> reach s0 s"
  then have "consistent s" by (blast intro: reach_consistent)
  then show "None \<notin> set (pending s)" by (simp add: consistent_def inv_main_def)
next
  show "\<forall>i s'. step (RecvClosed i) s = Some s' \<longrightarrow> s' = s\<lparr>workers := (workers s)[i := WDone None]\<rparr>"
    by (auto simp: worker_at_def set_worker_def split: if_splits worker.splits)
qed

theorem C10_nil_collector_witness:
  "CreateSupportBundle_init background (test_options 1 None) Map.empty
     [None, Some (NewCollector ''1'' (returns ''something''))] = Inl NilPointerDereference \<and>
   (\<exists>s0 s s'. CreateSupportBundle_init background (test_options 1 None) Map.empty
       [Some (NewCollector ''1'' (returns ''something''))] = Inr s0 \<and>
     exec [Recv 0, RunTask 0, CloseTasks] s0 = Some s \<and> pending s = [] \<and>
     step (RecvClosed 0) s = Some s' \<and> s' = s\<lparr>workers := (workers s)[0 := WDone None]\<rparr> \<and>
     sink s' = [''1'' \<mapsto> ''something''] \<and> emitted s' = [])"
proof -
  let ?init = "CreateSupportBundle_init background (test_options 1 None) Map.empty
       [Some (NewCollector ''1'' (returns ''something''))]"
  let ?a = "projr ?init"
  let ?b = "the (exec [Recv 0, RunTask 0, CloseTasks] ?a)"
  let ?c = "the (step (RecvClosed 0) ?b)"
  have n: "None \<in> set [None, Some (NewCollector ''1'' (returns ''something'') :: (string \<rightharpoonup> bytes) Collector)]"
    by simp
  have 1: "CreateSupportBundle_init background (test_options 1 None) Map.empty
     [None, Some (NewCollector ''1'' (returns ''something''))] = Inl NilPointerDereference"
    using C10_nil_collector [of "[None, Some (NewCollector ''1'' (returns ''something''))]"
        background "test_options 1 None" Map.empty] n by blast
  have i: "?init = Inr ?a" by (simp add: run_defs)
  have e: "exec [Recv 0, RunTask 0, CloseTasks] ?a = Some ?b" by (simp add: run_defs)
  have st: "step (RecvClosed 0) ?b = Some ?c" by (simp add: run_defs)
  have p: "pending ?b = []" by (simp add: run_defs)
  have "?c = ?b\<lparr>workers := (workers ?b)[0 := WDone None]\<rparr>"
    using C10_nil_collector [of "[Some (NewCollector ''1'' (returns ''something''))]"
        background "test_options 1 None" Map.empty ?a ?b] i reachI [OF e] st by blast
  moreover have "sink ?c = [''1'' \<mapsto> ''something'']" "emitted ?c = []"
    by (simp_all add: run_defs emitted_def)
  ultimately show ?thesis using 1 i e st p by blast
qed

theorem C10_counterexample:
  "CreateSupportBundle_init background (test_options 1 None) Map.empty [None]
     = Inl NilPointerDereference \<and>
   map_sum id (map_option mainpc)
     (run_schedule [CloseTasks, RecvClosed 0, Wait] background (test_options 1 None) Map.empty [])
     = Inr (Some (MReturned None))"
  by (simp add: run_defs)

section \<open>Cancellation\<close>

text \<open>
  C3.  One worker, two collectors, and the context is cancelled before the worker has
  received anything: the worker takes the \<open>ctx.Done()\<close> case and returns
  \<open>context.Canceled\<close>.  The sender is still in \<open>tasks <- col\<close> with both collectors, no
  worker is left to receive, and under no schedule does the call return: nothing is
  written, \<open>Close\<close> is not called, and no error reaches the caller.
\<close>

theorem C3_cancel_deadlock:
  "\<exists>s0 s. CreateSupportBundle_init background (test_options 1 None) Map.empty
       [Some (NewCollector ''1'' (returns ''something'')),
        Some (NewCollector ''2'' (returns ''another''))] = Inr s0 \<and>
     exec [Cancel Canceled, CtxDone 0] s0 = Some s \<and>
     ctx_err (ctx s) = Some Canceled \<and> workers s = [WDone (Some Canceled)] \<and>
     length (pending s) = 2 \<and>
     (\<forall>es s'. exec es s = Some s' \<longrightarrow>
        mainpc s' = MSending \<and> length (pending s') = 2 \<and> sink s' = Map.empty \<and> close_log s' = [])"
proof -
  let ?init = "CreateSupportBundle_init background (test_options 1 None) Map.empty
       [Some (NewCollector ''1'' (returns ''something'')),
        Some (NewCollector ''2'' (returns ''another''))]"
  let ?a = "projr ?init"
  let ?b = "the (exec [Cancel Canceled, CtxDone 0] ?a)"
  have i: "?init = Inr ?a" by (simp add: run_defs)
  have e: "exec [Cancel Canceled, CtxDone 0] ?a = Some ?b" by (simp add: run_defs)
  have f: "ctx_err (ctx ?b) = Some Canceled" "workers ?b = [WDone (Some Canceled)]"
    "length (pending ?b) = 2" "mainpc ?b = MSending" "sink ?b = Map.empty" "close_log ?b = []"
    by (simp_all add: run_defs)
  have p: "pending ?b \<noteq> []" using f(3) by auto
  have d: "list_all is_done (workers ?b)" using f(2) by simp
  have "mainpc s' = MSending \<and> length (pending s') = 2 \<and> sink s' = Map.empty \<and> close_log s' = []"
    if "exec es ?b = Some s'" for es s'
    using stuck_sender [OF that f(4) p d] f by simp
  with i e f show ?thesis by blast
qed

theorem C3_cancel_deadlock_witness:
  "\<exists>s0 s. CreateSupportBundle_init background (test_options 1 None) Map.empty
       [Some (NewCollector ''1'' (returns ''something'')),
        Some (NewCollector ''2'' (returns ''another''))] = Inr s0 \<and>
     exec [Cancel Canceled, CtxDone 0] s0 = Some s \<and> exec [] s = Some s \<and>
     mainpc s = MSending \<and> close_log s = []"
proof -
  from C3_cancel_deadlock obtain s0 s :: "(string \<rightharpoonup> bytes) state" where
    i: "CreateSupportBundle_init background (test_options 1 None) Map.empty
       [Some (NewCollector ''1'' (returns ''something'')),
        Some (NewCollector ''2'' (returns ''another''))] = Inr s0"
    and e: "exec [Cancel Canceled, CtxDone 0] s0 = Some s"
    and a: "\<forall>es s'. exec es s = Some s' \<longrightarrow>
        mainpc s' = MSending \<and> length (pending s') = 2 \<and> sink s' = Map.empty \<and> close_log s' = []"
    by blast
  have n: "exec [] s = Some s" by simp
  with a have "mainpc s = MSending \<and> close_log s = []" by blast
  with i e n show ?thesis by blast
qed

text \<open>
  C4.  One worker, two collectors.  In the first run the worker runs the first collector,
  the deadline passes, and at its \<open>select\<close> the worker takes the \<open>ctx.Done()\<close> case and
  returns \<open>context.DeadlineExceeded\<close>: a worker has returned an error, but the sender is
  blocked in \<open>tasks <- col\<close> with the second collector, and under no schedule does the
  call return, so that error is never returned.  In the second run the progress channel
  is unbuffered, the context is cancelled while the worker is sending its progress value,
  and the worker returns nil: no worker has returned an error, the sender is blocked in
  the same way, and \<open>Close\<close> is never called.  Only for the calls that do return does
  \<open>close_discipline\<close> give the result and the single call of \<open>Close\<close>.
\<close>

theorem C4_close_never_reached:
  "\<exists>s0 a t0 b.
     CreateSupportBundle_init background (test_options 1 None) Map.empty
       [Some (NewCollector ''1'' (returns ''something'')),
        Some (NewCollector ''2'' (returns ''another''))] = Inr s0 \<and>
     exec [Recv 0, RunTask 0, Cancel DeadlineExceeded, CtxDone 0] s0 = Some a \<and>
     workers a = [WDone (Some DeadlineExceeded)] \<and> length (pending a) = 1 \<and>
     (\<forall>es s'. exec es a = Some s' \<longrightarrow>
        mainpc s' = MSending \<and> workers s' = [WDone (Some DeadlineExceeded)] \<and> close_log s' = []) \<and>
     CreateSupportBundle_init background (test_options 1 (Some 0)) Map.empty
       [Some (NewCollector ''1'' (returns ''something'')),
        Some (NewCollector ''2'' (returns ''another''))] = Inr t0 \<and>
     exec [Recv 0, RunTask 0, Cancel Canceled, SendAbort 0] t0 = Some b \<and>
     workers b = [WDone None] \<and> eg_err b = None \<and> length (pending b) = 1 \<and>
     (\<forall>es s'. exec es b = Some s' \<longrightarrow>
        mainpc s' = MSending \<and> workers s' = [WDone None] \<and> close_log s' = [])"
proof -
  let ?cols = "[Some (NewCollector ''1'' (returns ''something'')),
        Some (NewCollector ''2'' (returns ''another''))] :: (string \<rightharpoonup> bytes) Collector option list"
  let ?i1 = "CreateSupportBundle_init background (test_options 1 None) Map.empty ?cols"
  let ?i2 = "CreateSupportBundle_init background (test_options 1 (Some 0)) Map.empty ?cols"
  let ?e1 = "[Recv 0, RunTask 0, Cancel DeadlineExceeded, CtxDone 0]"
  let ?e2 = "[Recv 0, RunTask 0, Cancel Canceled, SendAbort 0]"
  let ?p = "projr ?i1"
  let ?q = "projr ?i2"
  let ?a = "the (exec ?e1 ?p)"
  let ?b = "the (exec ?e2 ?q)"
  have i1: "?i1 = Inr ?p" and i2: "?i2 = Inr ?q" by (simp_all add: run_defs)
  have e1: "exec ?e1 ?p = Some ?a" and e2: "exec ?e2 ?q = Some ?b" by (simp_all add: run_defs)
  have fa: "workers ?a = [WDone (Some DeadlineExceeded)]" "length (pending ?a) = 1"
    "mainpc ?a = MSending" "close_log ?a = []"
    by (simp_all add: run_defs)
  have fb: "workers ?b = [WDone None]" "length (pending ?b) = 1"
    "mainpc ?b = MSending" "close_log ?b = []" "eg_err ?b = None"
    by (simp_all add: run_defs)
  have pa: "pending ?a \<noteq> []" using fa(2) by auto
  have pb: "pending ?b \<noteq> []" using fb(2) by auto
  have da: "list_all is_done (workers ?a)" using fa(1) by simp
  have db: "list_all is_done (workers ?b)" using fb(1) by simp
  have sa: "mainpc s' = MSending \<and> workers s' = [WDone (Some DeadlineExceeded)] \<and> close_log s' = []"
    if "exec es ?a = Some s'" for es s'
    using stuck_sender [OF that fa(3) pa da] fa by simp
  have sb: "mainpc s' = MSending \<and> workers s' = [WDone None] \<and> close_log s' = []"
    if "exec es ?b = Some s'" for es s'
    using stuck_sender [OF that fb(3) pb db] fb by simp
  from i1 e1 fa(1,2) sa i2 e2 fb(1,5,2) sb show ?thesis by blast
qed

theorem C4_close_never_reached_witness:
  "\<exists>s0 a t0 b.
     CreateSupportBundle_init background (test_options 1 None) Map.empty
       [Some (NewCollector ''1'' (returns ''something'')),
        Some (NewCollector ''2'' (returns ''another''))] = Inr s0 \<and>
     exec [Recv 0, RunTask 0, Cancel DeadlineExceeded, CtxDone 0] s0 = Some a \<and>
     exec [] a = Some a \<and> mainpc a = MSending \<and> close_log a = [] \<and>
     CreateSupportBundle_init background (test_options 1 (Some 0)) Map.empty
       [Some (NewCollector ''1'' (returns ''something'')),
        Some (NewCollector ''2'' (returns ''another''))] = Inr t0 \<and>
     exec [Recv 0, RunTask 0, Cancel Canceled, SendAbort 0] t0 = Some b \<and>
     exec [] b = Some b \<and> mainpc b = MSending \<and> close_log b = []"
proof -
  from C4_close_never_reached obtain s0 a t0 b :: "(string \<rightharpoonup> bytes) state" where
    i1: "CreateSupportBundle_init background (test_options 1 None) Map.empty
       [Some (NewCollector ''1'' (returns ''something'')),
        Some (NewCollector ''2'' (returns ''another''))] = Inr s0"
    and e1: "exec [Recv 0, RunTask 0, Cancel DeadlineExceeded, CtxDone 0] s0 = Some a"
    and sa: "\<forall>es s'. exec es a = Some s' \<longrightarrow>
        mainpc s' = MSending \<and> workers s' = [WDone (Some DeadlineExceeded)] \<and> close_log s' = []"
    and i2: "CreateSupportBundle_init background (test_options 1 (Some 0)) Map.empty
       [Some (NewCollector ''1'' (returns ''something'')),
        Some (NewCollector ''2'' (returns ''another''))] = Inr t0"
    and e2: "exec [Recv 0, RunTask 0, Cancel Canceled, SendAbort 0] t0 = Some b"
    and sb: "\<forall>es s'. exec es b = Some s' \<longrightarrow>
        mainpc s' = MSending \<and> workers s' = [WDone None] \<and> close_log s' = []"
    by blast
  have na: "exec [] a = Some a" and nb: "exec [] b = Some b" by simp_all
  from sa na have "mainpc a = MSending \<and> close_log a = []" by blast
  moreover from sb nb have "mainpc b = MSending \<and> close_log b = []" by blast
  ultimately show ?thesis using i1 e1 na i2 e2 nb by blast
qed

section \<open>Errors of a collector\<close>

text \<open>
  C2.  In every state a call reaches: when the call has returned \<open>r\<close>, then \<open>r\<close> is the
  result of the one call of \<open>Close\<close>, or it is the error of the cancelled context and
  \<open>Close\<close> was not called; so with a live context and an archive whose \<open>Close\<close> does not
  fail the call returns nil, whatever the collectors and the archive's \<open>Write\<close> did.  The
  worker that runs a collector stores the error of \<open>Run\<close> in the \<open>Error\<close> field of the
  progress value it is about to send, and nowhere else; when no progress channel is
  configured the error is dropped and the worker is back at its \<open>select\<close>.  With a worker
  count that is not negative, the call can still return from every state it reaches with
  the context live, without the context being cancelled.
\<close>

theorem C2_task_error_not_escalated:
  assumes "CreateSupportBundle_init cx options st cols = Inr s0" and "reach s0 s"
  shows "(\<forall>r. mainpc s = MReturned r \<longrightarrow>
            close_log s = [r] \<or> (close_log s = [] \<and> r \<noteq> None \<and> r = ctx_err (ctx s))) \<and>
    (\<forall>r. mainpc s = MReturned r \<and> ctx_err (ctx s) = None \<and>
          (\<forall>st'. fst (Close (Archive options) st') = None) \<longrightarrow> r = None) \<and>
    (\<forall>i c. i < length (workers s) \<and> workers s ! i = WRun c \<longrightarrow>
       (\<exists>s'. step (RunTask i) s = Some s' \<and>
          mainpc s' = mainpc s \<and> eg_err s' = eg_err s \<and> close_log s' = close_log s \<and>
          pending s' = pending s \<and> emitted s' = emitted s \<and>
          sink s' = snd (Run c (ctx s) (opts s) (sink s)) \<and>
          workers s' = (workers s)[i :=
            (case Progress options of
               None \<Rightarrow> WSelect
             | Some cap \<Rightarrow>
                 WSend \<lparr>Error = fst (Run c (ctx s) (opts s) (sink s)), Source = source c,
                        State = String c, Total = lookup0 (totals s) (source c)\<rparr>)])) \<and>
    (0 \<le> NumWorkers options \<and> ctx_err (ctx s) = None \<longrightarrow>
       (\<exists>t r. reach s t \<and> mainpc t = MReturned r \<and> ctx t = ctx s))"
proof -
  have c: "consistent s" using assms by (rule reach_consistent)
  then have e: "inv_err s" and cl: "inv_close s" and pr: "inv_progress s"
    by (simp_all add: consistent_def)
  have o: "opts s = options\<lparr>NumWorkers := (if NumWorkers options = 0 then 1 else NumWorkers options)\<rparr>"
    using reach_frame [OF assms(2)] init_fields(1) [OF assms(1)] by simp
  have 1: "close_log s = [r] \<or> (close_log s = [] \<and> r \<noteq> None \<and> r = ctx_err (ctx s))"
    if "mainpc s = MReturned r" for r
  proof (cases "eg_err s")
    case None
    with cl that show ?thesis unfolding inv_close_def by blast
  next
    case (Some e')
    with e have "ctx_err (ctx s) = Some e'" unfolding inv_err_def by blast
    moreover from cl that Some have "close_log s = [] \<and> r = Some e'"
      unfolding inv_close_def by blast
    ultimately show ?thesis by simp
  qed
  have 2: "r = None"
    if "mainpc s = MReturned r" "ctx_err (ctx s) = None" "\<forall>st'. fst (Close (Archive options) st') = None"
    for r
  proof -
    from 1 [OF that(1)] that(2) have "close_log s = [r]" by auto
    with cl obtain st' where "r = fst (Close (Archive (opts s)) st')"
      unfolding inv_close_def by auto
    with o that(3) show ?thesis by simp
  qed
  have 3: "\<exists>s'. step (RunTask i) s = Some s' \<and>
          mainpc s' = mainpc s \<and> eg_err s' = eg_err s \<and> close_log s' = close_log s \<and>
          pending s' = pending s \<and> emitted s' = emitted s \<and>
          sink s' = snd (Run c (ctx s) (opts s) (sink s)) \<and>
          workers s' = (workers s)[i :=
            (case Progress options of
               None \<Rightarrow> WSelect
             | Some cap \<Rightarrow>
                 WSend \<lparr>Error = fst (Run c (ctx s) (opts s) (sink s)), Source = source c,
                        State = String c, Total = lookup0 (totals s) (source c)\<rparr>)]"
    if "i < length (workers s)" "workers s ! i = WRun c" for i c
  proof -
    from pr o have "collectProgress s \<longleftrightarrow> Progress options \<noteq> None"
      by (simp add: inv_progress_def)
    with that show ?thesis
      by (cases "Run c (ctx s) (opts s) (sink s)"; cases "Progress options")
        (simp_all add: worker_at_def set_worker_def after_run_def emitted_def)
  qed
  have 4: "\<exists>t r. reach s t \<and> mainpc t = MReturned r \<and> ctx t = ctx s"
    if "0 \<le> NumWorkers options" "ctx_err (ctx s) = None"
    using live_run_can_return [OF assms(1) that(1) assms(2) that(2)] .
  from 1 2 3 4 show ?thesis by blast
qed

theorem C2_task_error_not_escalated_witness:
  "\<exists>s0 s1 s2 s.
     CreateSupportBundle_init background (test_options 1 None) Map.empty
       [Some (NewCollector ''1'' (fails ''boom''))] = Inr s0 \<and>
     exec [Recv 0] s0 = Some s1 \<and> workers s1 = [WRun (NewCollector ''1'' (fails ''boom''))] \<and>
     Run (NewCollector ''1'' (fails ''boom'')) (ctx s1) (opts s1) (sink s1) = (Some (Err ''boom''), Map.empty) \<and>
     step (RunTask 0) s1 = Some s2 \<and> workers s2 = [WSelect] \<and> emitted s2 = [] \<and>
     exec [CloseTasks, RecvClosed 0, Wait] s2 = Some s \<and> mainpc s = MReturned None"
proof -
  let ?init = "CreateSupportBundle_init background (test_options 1 None) Map.empty
       [Some (NewCollector ''1'' (fails ''boom''))]"
  let ?a = "projr ?init"
  let ?b = "the (exec [Recv 0] ?a)"
  let ?c = "the (step (RunTask 0) ?b)"
  let ?d = "the (exec [Recv 0, RunTask 0, CloseTasks, RecvClosed 0, Wait] ?a)"
  have i: "?init = Inr ?a" by (simp add: run_defs)
  have e1: "exec [Recv 0] ?a = Some ?b" by (simp add: run_defs)
  have w1: "workers ?b = [WRun (NewCollector ''1'' (fails ''boom''))]" "0 < length (workers ?b)"
    "workers ?b ! 0 = WRun (NewCollector ''1'' (fails ''boom''))"
    by (simp_all add: run_defs)
  have r: "Run (NewCollector ''1'' (fails ''boom'')) (ctx ?b) (opts ?b) (sink ?b) = (Some (Err ''boom''), Map.empty)"
    by (simp add: run_defs)
  have pn: "Progress (test_options 1 None) = None" by (simp add: test_options_def)
  note t = C2_task_error_not_escalated [OF i reachI [OF e1]]
  note t3 = t [THEN conjunct2, THEN conjunct2, THEN conjunct1, rule_format, OF conjI [OF w1(2,3)]]
  have 2: "step (RunTask 0) ?b = Some ?c" using t3 by (elim exE conjE) simp
  have 3: "workers ?c = [WSelect]" using t3 w1(1) pn by (elim exE conjE) simp
  have 4: "emitted ?c = []" using t3 by (elim exE conjE) (simp add: run_defs emitted_def)
  have e3: "exec [CloseTasks, RecvClosed 0, Wait] ?c = Some ?d" by (simp add: run_defs)
  have ed: "exec [Recv 0, RunTask 0, CloseTasks, RecvClosed 0, Wait] ?a = Some ?d" by (simp add: run_defs)
  have cn: "ctx_err (ctx ?d) = None" by (simp add: run_defs)
  have cz: "\<forall>st'. fst (Close (Archive (test_options 1 None)) st') = None"
    by (simp add: test_options_def testArchive_def)
  have md: "mainpc ?d = MReturned None" by (simp add: run_defs)
  from i e1 w1(1) r 2 3 4 e3 md show ?thesis by blast
qed

section \<open>The archive after a run\<close>

text \<open>
  C1.  Let the collectors have pairwise distinct destination paths, let every body return
  a non-nil payload and a nil error whenever it is called, and let no progress channel be
  configured; the archive is the tests' archive, empty at the start.  Then every call
  that returns while the context is live returns nil, and the archive holds exactly one
  entry for each collector: its keys are the destination paths, as many as there are
  collectors, and the entry at a collector's destination path is the payload its body
  returned.
\<close>

theorem C1_one_entry_per_task:
  assumes "CreateSupportBundle_init cx options Map.empty cols = Inr s0"
    and "Archive options = testArchive" and "Progress options = None"
    and "distinct (map (destinationPath \<circ> the) cols)"
    and "\<forall>c cx' options'. Some c \<in> set cols \<longrightarrow>
           fst (collect c cx' options') \<noteq> None \<and> snd (collect c cx' options') = None"
    and "reach s0 s" and "mainpc s = MReturned r" and "ctx_err (ctx s) = None"
  shows "r = None \<and>
    dom (sink s) = (destinationPath \<circ> the) ` set cols \<and>
    card (dom (sink s)) = length cols \<and>
    (\<forall>c. Some c \<in> set cols \<longrightarrow> sink s (destinationPath c) = fst (collect c (ctx s) (opts s)))"
proof -
  have o: "opts s = opts s0" using reach_frame [OF assms(6)] by simp
  have bodies: "\<forall>c. Some c \<in> set cols \<longrightarrow> (\<exists>d. collect c cx (opts s0) = (Some d, None))"
  proof (intro allI impI)
    fix c assume "Some c \<in> set cols"
    with assms(5) have "fst (collect c cx (opts s0)) \<noteq> None \<and> snd (collect c cx (opts s0)) = None"
      by blast
    then show "\<exists>d. collect c cx (opts s0) = (Some d, None)"
      by (cases "collect c cx (opts s0)") auto
  qed
  have cxs: "ctx s = cx"
    using reach_sink_ledger [OF assms(1,2) bodies assms(6)] assms(8)
    by (simp add: sink_ledger_def)
  from returned_sink [OF assms(1,2) bodies assms(6,7,8)]
  obtain ds where ds: "mset (map Some ds) = mset cols"
    and k: "sink s = map_of (map (entry cx (opts s0)) ds)"
    by auto
  from ds have "mset (map (destinationPath \<circ> the) (map Some ds)) = mset (map (destinationPath \<circ> the) cols)"
    by (metis mset_map)
  then have pm: "mset (map destinationPath ds) = mset (map (destinationPath \<circ> the) cols)"
    by (simp add: comp_def)
  with assms(4) have dist: "distinct (map destinationPath ds)"
    by (metis mset_eq_imp_distinct_iff)
  have fs: "map fst (map (entry cx (opts s0)) ds) = map destinationPath ds"
    by (simp add: entry_def comp_def)
  have sets: "set cols = Some ` set ds"
    using ds by (metis mset_eq_setD set_map)
  have 1: "r = None"
    using returned_live_result [OF assms(1,6,7,8)] assms(2) by (auto simp: testArchive_def)
  have 2: "dom (sink s) = (destinationPath \<circ> the) ` set cols"
    using k sets by (simp add: dom_map_of_conv_image_fst entry_def image_image)
  have "card (dom (sink s)) = card (set (map destinationPath ds))"
    using k by (simp add: dom_map_of_conv_image_fst entry_def image_image)
  also have "\<dots> = length (map destinationPath ds)" using dist by (rule distinct_card)
  also have "\<dots> = length cols" using pm by (metis size_mset length_map)
  finally have 3: "card (dom (sink s)) = length cols" .
  have 4: "sink s (destinationPath c) = fst (collect c (ctx s) (opts s))" if "Some c \<in> set cols" for c
  proof -
    from that sets have "c \<in> set ds" by auto
    then have "entry cx (opts s0) c \<in> set (map (entry cx (opts s0)) ds)" by simp
    then have "(destinationPath c, the (fst (collect c cx (opts s0)))) \<in> set (map (entry cx (opts s0)) ds)"
      by (simp add: entry_def)
    moreover from dist fs have "distinct (map fst (map (entry cx (opts s0)) ds))" by metis
    ultimately have "map_of (map (entry cx (opts s0)) ds) (destinationPath c)
        = Some (the (fst (collect c cx (opts s0))))"
      by (intro map_of_is_SomeI)
    moreover from bodies that obtain d where "collect c cx (opts s0) = (Some d, None)" by blast
    ultimately show ?thesis using k cxs o by simp
  qed
  from 1 2 3 4 show ?thesis by blast
qed

theorem C1_one_entry_per_task_witness:
  "\<exists>s0 s. CreateSupportBundle_init background (test_options 2 None) Map.empty
       [Some (NewCollector ''1'' (returns ''something'')),
        Some (NewCollector ''2'' (returns ''another''))] = Inr s0 \<and>
     exec [Recv 0, Recv 1, RunTask 1, RunTask 0, CloseTasks, RecvClosed 1, RecvClosed 0, Wait] s0 = Some s \<and>
     mainpc s = MReturned None \<and> ctx_err (ctx s) = None \<and>
     dom (sink s) = {''1'', ''2''} \<and> card (dom (sink s)) = 2 \<and>
     sink s ''1'' = Some ''something'' \<and> sink s ''2'' = Some ''another''"
proof -
  let ?c1 = "NewCollector ''1'' (returns ''something'') :: (string \<rightharpoonup> bytes) Collector"
  let ?c2 = "NewCollector ''2'' (returns ''another'') :: (string \<rightharpoonup> bytes) Collector"
  let ?cols = "[Some ?c1, Some ?c2]"
  let ?init = "CreateSupportBundle_init background (test_options 2 None) Map.empty ?cols"
  let ?es = "[Recv 0, Recv 1, RunTask 1, RunTask 0, CloseTasks, RecvClosed 1, RecvClosed 0, Wait]"
  let ?a = "projr ?init"
  let ?b = "the (exec ?es ?a)"
  have i: "?init = Inr ?a" by (simp add: run_defs eval_nat_numeral)
  have e: "exec ?es ?a = Some ?b" by (simp add: run_defs eval_nat_numeral)
  have m: "mainpc ?b = MReturned (the_elem (set (close_log ?b)))" by (simp add: run_defs eval_nat_numeral)
  have l: "ctx_err (ctx ?b) = None" by (simp add: run_defs eval_nat_numeral)
  have ar: "Archive (test_options 2 None) = testArchive" and pr: "Progress (test_options 2 None) = None"
    by (simp_all add: test_options_def)
  have di: "distinct (map (destinationPath \<circ> the) ?cols)" by (simp add: NewCollector_def)
  have bo: "\<forall>c cx' options'. Some c \<in> set ?cols \<longrightarrow>
           fst (collect c cx' options') \<noteq> None \<and> snd (collect c cx' options') = None"
    by (auto simp: NewCollector_def returns_def)
  note t = C1_one_entry_per_task [OF i ar pr di bo reachI [OF e] m l]
  note t1 = t [THEN conjunct1] and t2 = t [THEN conjunct2, THEN conjunct1]
    and t3 = t [THEN conjunct2, THEN conjunct2, THEN conjunct1]
    and t4 = t [THEN conjunct2, THEN conjunct2, THEN conjunct2, rule_format]
  have 1: "mainpc ?b = MReturned None" using m t1 by (simp only:)
  have "(destinationPath \<circ> the) ` set ?cols = {''1'', ''2''}" by (simp add: NewCollector_def)
  with t2 have 2: "dom (sink ?b) = {''1'', ''2''}" by (simp only:)
  have 3: "card (dom (sink ?b)) = 2" by (rule trans [OF t3]) simp
  have d: "destinationPath ?c1 = ''1''" "destinationPath ?c2 = ''2''"
    "\<And>cx' options'. fst (collect ?c1 cx' options') = Some ''something''"
    "\<And>cx' options'. fst (collect ?c2 cx' options') = Some ''another''"
    by (simp_all add: NewCollector_def returns_def)
  have "sink ?b (destinationPath ?c1) = fst (collect ?c1 (ctx ?b) (opts ?b))"
    and "sink ?b (destinationPath ?c2) = fst (collect ?c2 (ctx ?b) (opts ?b))"
    by (rule t4, simp)+
  then have 4: "sink ?b ''1'' = Some ''something''" "sink ?b ''2'' = Some ''another''"
    by (simp_all only: d)
  from i e 1 l 2 3 4 show ?thesis by blast
qed

section \<open>Totals\<close>

text \<open>
  C6.  In every state a call reaches, the totals map holds for each label exactly the
  number of collectors of the list that carry it (and nothing for other labels), and
  every progress value the channel has accepted carries as \<open>Total\<close> that number for its
  \<open>Source\<close>.  When a progress channel is configured and the call has returned with the
  context live, the labels of the accepted values are, with multiplicity, the labels of
  the collectors.  For the 1000 collectors of \<open>TestCollectWithProgress\<close>, relabelled into the
  groups 1 to 100 of ten consecutive collectors each, such a run gives exactly 1000
  progress values, each with \<open>Total\<close> 10 and the label of one of the groups, and every
  group's label on exactly 10 of them.
\<close>

theorem C6_totals:
  assumes "CreateSupportBundle_init cx options st cols = Inr s0" and "reach s0 s"
  shows "(\<forall>k. totals s k =
            (if k \<in> (source \<circ> the) ` set cols
             then Some (int (count_list (map (source \<circ> the) cols) k)) else None)) \<and>
    (\<forall>p\<in>set (emitted s). Total p = int (count_list (map (source \<circ> the) cols) (Source p))) \<and>
    (Progress options \<noteq> None \<and> (\<exists>r. mainpc s = MReturned r) \<and> ctx_err (ctx s) = None \<longrightarrow>
       mset (map Source (emitted s)) = mset (map (source \<circ> the) cols)) \<and>
    (cols = TestCollectWithProgress_cols \<and> Progress options \<noteq> None \<and>
     (\<exists>r. mainpc s = MReturned r) \<and> ctx_err (ctx s) = None \<longrightarrow>
       length (emitted s) = 1000 \<and>
       (\<forall>p\<in>set (emitted s). Total p = 10) \<and>
       (\<forall>p\<in>set (emitted s). \<exists>g\<in>{1..100}. Source p = Sprintf_d g) \<and>
       (\<forall>g\<in>{1..100}. count_list (map Source (emitted s)) (Sprintf_d g) = 10))"
proof -
  have t: "totals s = totals s0" using reach_frame [OF assms(2)] by simp
  have 1: "totals s k = (if k \<in> (source \<circ> the) ` set cols
             then Some (int (count_list (map (source \<circ> the) cols) k)) else None)" for k
    using calculateTotals_count(2) [OF init_fields(2) [OF assms(1)]] t by simp
  have 2: "\<forall>p\<in>set (emitted s). Total p = int (count_list (map (source \<circ> the) cols) (Source p))"
    using emitted_totals [OF assms] by blast
  have 3: "mset (map Source (emitted s)) = mset (map (source \<circ> the) cols)"
    if "Progress options \<noteq> None" "\<exists>r. mainpc s = MReturned r" "ctx_err (ctx s) = None"
    using that returned_events [OF assms(1) _ assms(2)] by blast
  have 4: "length (emitted s) = 1000 \<and>
       (\<forall>p\<in>set (emitted s). Total p = 10) \<and>
       (\<forall>p\<in>set (emitted s). \<exists>g\<in>{1..100}. Source p = Sprintf_d g) \<and>
       (\<forall>g\<in>{1..100}. count_list (map Source (emitted s)) (Sprintf_d g) = 10)"
    if c: "cols = TestCollectWithProgress_cols" and h: "Progress options \<noteq> None"
      "\<exists>r. mainpc s = MReturned r" "ctx_err (ctx s) = None"
  proof -
    let ?labels = "map (source \<circ> the) (TestCollectWithProgress_cols :: 'a Collector option list)"
    have m: "mset (map Source (emitted s)) = mset ?labels" using 3 [OF h] c by simp
    then have "length (map Source (emitted s)) = length ?labels" by (rule mset_eq_length)
    then have a: "length (emitted s) = 1000" by (simp add: test_labels)
    have cnt: "count_list (map Source (emitted s)) k = count_list ?labels k" for k
      using m by (metis count_mset)
    have rng: "\<exists>g\<in>{1..100}. Source p = Sprintf_d g" if "p \<in> set (emitted s)" for p
    proof -
      from that have "Source p \<in> set (map Source (emitted s))" by simp
      with m have "Source p \<in> set ?labels" by (metis set_mset_mset)
      then show ?thesis by (rule test_label_range)
    qed
    have b: "Total p = 10" if "p \<in> set (emitted s)" for p
    proof -
      from rng [OF that] obtain g where g: "1 \<le> g" "g \<le> 100" "Source p = Sprintf_d g" by auto
      from 2 that c have "Total p = int (count_list ?labels (Source p))" by simp
      with g test_label_count [OF g(1,2)] show ?thesis by simp
    qed
    have d: "count_list (map Source (emitted s)) (Sprintf_d g) = 10" if "g \<in> {1..100}" for g
      using that cnt test_label_count [of g] by simp
    from a b rng d show ?thesis by blast
  qed
  show ?thesis
  proof (intro conjI)
    show "\<forall>k. totals s k =
            (if k \<in> (source \<circ> the) ` set cols
             then Some (int (count_list (map (source \<circ> the) cols) k)) else None)"
      using 1 by blast
    show "\<forall>p\<in>set (emitted s). Total p = int (count_list (map (source \<circ> the) cols) (Source p))"
      by (rule 2)
    show "Progress options \<noteq> None \<and> (\<exists>r. mainpc s = MReturned r) \<and> ctx_err (ctx s) = None \<longrightarrow>
       mset (map Source (emitted s)) = mset (map (source \<circ> the) cols)"
      using 3 by blast
    show "cols = TestCollectWithProgress_cols \<and> Progress options \<noteq> None \<and>
     (\<exists>r. mainpc s = MReturned r) \<and> ctx_err (ctx s) = None \<longrightarrow>
       length (emitted s) = 1000 \<and>
       (\<forall>p\<in>set (emitted s). Total p = 10) \<and>
       (\<forall>p\<in>set (emitted s). \<exists>g\<in>{1..100}. Source p = Sprintf_d g) \<and>
       (\<forall>g\<in>{1..100}. count_list (map Source (emitted s)) (Sprintf_d g) = 10)"
      by (intro impI, elim conjE, rule 4)
  qed
qed

theorem C6_totals_witness:
  "\<exists>s0 s r. CreateSupportBundle_init background (test_options 5 (Some 1000)) Map.empty
       TestCollectWithProgress_cols = Inr s0 \<and>
     exec (seq_schedule True 1000 5) s0 = Some s \<and> mainpc s = MReturned r \<and>
     ctx_err (ctx s) = None \<and> length (emitted s) = 1000 \<and>
     map Total (emitted s) = replicate 1000 10 \<and>
     count_list (map Source (emitted s)) (Sprintf_d 1) = 10 \<and>
     count_list (map Source (emitted s)) (Sprintf_d 100) = 10 \<and>
     totals s (Sprintf_d 42) = Some 10"
proof -
  let ?cols = "TestCollectWithProgress_cols :: (string \<rightharpoonup> bytes) Collector option list"
  have "\<exists>s0. CreateSupportBundle_init background (test_options 5 (Some 1000)) Map.empty ?cols = Inr s0"
    by (rule init_total) (rule test_cols_no_nil)
  then obtain s0 where i: "CreateSupportBundle_init background (test_options 5 (Some 1000)) Map.empty ?cols = Inr s0" ..
  have n: "0 \<le> NumWorkers (test_options 5 (Some 1000))" by (simp add: test_options_def)
  from completes [OF i n] obtain s r where
    e: "exec (seq_schedule (Progress (test_options 5 (Some 1000)) \<noteq> None) (length ?cols)
          (nat (if NumWorkers (test_options 5 (Some 1000)) = 0 then 1
                else NumWorkers (test_options 5 (Some 1000))))) s0 = Some s"
    and m: "mainpc s = MReturned r" and c: "ctx s = background"
    by blast
  have e': "exec (seq_schedule True 1000 5) s0 = Some s"
    using e by (simp add: test_options_def TestCollectWithProgress_cols_def)
  have l: "ctx_err (ctx s) = None" using c by (simp add: background_def)
  have p: "Progress (test_options 5 (Some 1000)) \<noteq> None" by (simp add: test_options_def)
  note t = C6_totals [OF i reachI [OF e']]
  from m have m': "\<exists>r. mainpc s = MReturned r" by blast
  from t p m' l have a: "length (emitted s) = 1000"
    and b: "\<forall>p\<in>set (emitted s). Total p = 10"
    and d: "\<forall>g\<in>{1..100}. count_list (map Source (emitted s)) (Sprintf_d g) = 10"
    by blast+
  from b have "map Total (emitted s) = replicate (length (emitted s)) 10"
    by (rule map_const_replicate)
  with a have b': "map Total (emitted s) = replicate 1000 10" by simp
  from d have d1: "count_list (map Source (emitted s)) (Sprintf_d 1) = 10"
    and d2: "count_list (map Source (emitted s)) (Sprintf_d 100) = 10"
    by simp_all
  have "Sprintf_d 42 \<in> (source \<circ> the) ` set ?cols"
  proof -
    have "(410::nat) \<in> set [0..<1000]" by simp
    then have "Sprintf_d (410 div 10 + 1) \<in> (\<lambda>i. Sprintf_d (i div 10 + 1)) ` set [0..<1000]"
      by (rule imageI)
    then have "Sprintf_d 42 \<in> set (map (\<lambda>i. Sprintf_d (i div 10 + 1)) [0..<1000])"
      by (simp only: set_map) simp
    then have "Sprintf_d 42 \<in> set (map (source \<circ> the) ?cols)" by (simp only: test_labels)
    then show ?thesis by (simp only: set_map)
  qed
  moreover from t have "totals s (Sprintf_d 42) =
            (if Sprintf_d 42 \<in> (source \<circ> the) ` set ?cols
             then Some (int (count_list (map (source \<circ> the) ?cols) (Sprintf_d 42))) else None)"
    by blast
  ultimately have f: "totals s (Sprintf_d 42) = Some 10"
    using test_label_count [of 42, where ?'a = "string \<rightharpoonup> bytes"] by simp
  from i e' m l a b' d1 d2 f show ?thesis by blast
qed

section \<open>Scoping collectors to a node\<close>

text \<open>
  C7 (amended).  For a slice whose pointers are pairwise distinct and none of them nil,
  \<open>WithNode\<close> returns the same slice, and every object of the slice then has the node as its
  label, the join of the node and its former destination path as its destination path, and
  a body that calls the former body with the context annotated with the node; objects
  outside the slice are untouched.  For the collectors of \<open>TestCollect\<close>, where the
  collector with path \<open>1\<close> is scoped to \<open>n1\<close>: every call that returns with the context
  live leaves its payload at \<open>n1/1\<close> in the archive, and its group in the totals is \<open>n1\<close>,
  with one member.
\<close>

theorem C7_WithNode:
  "(distinct collectors \<and> set collectors \<subseteq> dom h \<longrightarrow>
      (\<exists>h'. WithNode h collectors node = Inr (h', collectors) \<and>
         (\<forall>p\<in>set collectors.
            h' p \<noteq> None \<and> source (the (h' p)) = node \<and>
            destinationPath (the (h' p)) = filepath_Join [node, destinationPath (the (h p))] \<and>
            (\<forall>cx options. collect (the (h' p)) cx options
                            = collect (the (h p)) (client_WithNode cx node) options)) \<and>
         (\<forall>p. p \<notin> set collectors \<longrightarrow> h' p = h p))) \<and>
   (\<forall>cols cx options s0 s r.
      TestCollect_cols = Inr cols \<and>
      CreateSupportBundle_init cx options Map.empty cols = Inr s0 \<and> Archive options = testArchive \<and>
      reach s0 s \<and> mainpc s = MReturned r \<and> ctx_err (ctx s) = None \<longrightarrow>
      sink s ''n1/1'' = Some ''another'' \<and> sink s ''1'' = Some ''something'' \<and>
      totals s ''n1'' = Some 1)"
proof (intro conjI impI allI)
  assume a: "distinct collectors \<and> set collectors \<subseteq> dom h"
  then have "distinct collectors" "set collectors \<subseteq> dom h" by simp_all
  from for_each_distinct [OF this, of "scope_body node"]
  obtain h' where h': "for_each (scope_body node) h collectors = Inr h'"
    "\<forall>p\<in>set collectors. h' p = Some (scope_body node (the (h p)))"
    "\<forall>p. p \<notin> set collectors \<longrightarrow> h' p = h p"
    by blast
  have "WithNode h collectors node = Inr (h', collectors)" using h'(1) by (simp add: WithNode_def)
  moreover have "\<forall>p\<in>set collectors.
            h' p \<noteq> None \<and> source (the (h' p)) = node \<and>
            destinationPath (the (h' p)) = filepath_Join [node, destinationPath (the (h p))] \<and>
            (\<forall>cx options. collect (the (h' p)) cx options
                            = collect (the (h p)) (client_WithNode cx node) options)"
    using h'(2) by (simp add: scope_body_def)
  ultimately show "\<exists>h'. WithNode h collectors node = Inr (h', collectors) \<and>
         (\<forall>p\<in>set collectors.
            h' p \<noteq> None \<and> source (the (h' p)) = node \<and>
            destinationPath (the (h' p)) = filepath_Join [node, destinationPath (the (h p))] \<and>
            (\<forall>cx options. collect (the (h' p)) cx options
                            = collect (the (h p)) (client_WithNode cx node) options)) \<and>
         (\<forall>p. p \<notin> set collectors \<longrightarrow> h' p = h p)"
    using h'(3) by blast
next
  fix cols cx options and s0 s :: "(string \<rightharpoonup> bytes) state" and r
  assume "TestCollect_cols = Inr cols \<and>
      CreateSupportBundle_init cx options Map.empty cols = Inr s0 \<and> Archive options = testArchive \<and>
      reach s0 s \<and> mainpc s = MReturned r \<and> ctx_err (ctx s) = None"
  then have "sink s ''n1/1'' = Some ''another'' \<and> sink s ''1'' = Some ''something'' \<and>
      totals s ''n1'' = Some 1"
    by (elim conjE) (rule TestCollect_run)
  then show "sink s ''n1/1'' = Some ''another''" "sink s ''1'' = Some ''something''"
    "totals s ''n1'' = Some 1"
    by simp_all
qed

theorem C7_counterexample:
  "paths_of (WithNode [0 \<mapsto> NewCollector ''1'' (returns ''another'' :: (string \<rightharpoonup> bytes) Collect)]
      [0, 0] ''n1'') = Inr [Some ''n1/n1/1'', Some ''n1/n1/1''] \<and>
   filepath_Join [''n1'', ''1''] = ''n1/1''"
  by (simp add: paths_of_def WithNode_def scope_body_def NewCollector_def path_defs)

theorem C7_WithNode_witness:
  "\<exists>h' cols s0 s.
     WithNode TestCollect_store [2] ''n1'' = Inr (h', [2]) \<and>
     source (the (h' 2)) = ''n1'' \<and> destinationPath (the (h' 2)) = ''n1/1'' \<and>
     h' 0 = TestCollect_store 0 \<and>
     TestCollect_cols = Inr cols \<and>
     CreateSupportBundle_init background (test_options 5 None) Map.empty cols = Inr s0 \<and>
     exec [Recv 0, Recv 1, Recv 2, RunTask 2, RunTask 0, RunTask 1, CloseTasks,
           RecvClosed 0, RecvClosed 1, RecvClosed 2, RecvClosed 3, RecvClosed 4, Wait] s0 = Some s \<and>
     mainpc s = MReturned None \<and> ctx_err (ctx s) = None \<and>
     sink s ''n1/1'' = Some ''another'' \<and> sink s ''1'' = Some ''something'' \<and>
     totals s ''n1'' = Some 1"
proof -
  let ?cols = "[Some (NewCollector ''1'' (returns ''something'')),
          Some (NewCollector ''1'' (returns ''something'')),
          Some (scope_body ''n1'' (NewCollector ''1'' (returns ''another'')))]
          :: (string \<rightharpoonup> bytes) Collector option list"
  let ?init = "CreateSupportBundle_init background (test_options 5 None) Map.empty ?cols"
  let ?es = "[Recv 0, Recv 1, Recv 2, RunTask 2, RunTask 0, RunTask 1, CloseTasks,
           RecvClosed 0, RecvClosed 1, RecvClosed 2, RecvClosed 3, RecvClosed 4, Wait]"
  let ?a = "projr ?init"
  let ?b = "the (exec ?es ?a)"
  have pre: "distinct [2::nat] \<and> set [2::nat] \<subseteq> dom TestCollect_store"
    by (simp add: TestCollect_store_def)
  from C7_WithNode [of "[2]" TestCollect_store "''n1''", THEN conjunct1, rule_format, OF pre]
  obtain h' where h': "WithNode TestCollect_store [2] ''n1'' = Inr (h', [2])"
    "\<forall>p\<in>set [2::nat]. h' p \<noteq> None \<and> source (the (h' p)) = ''n1'' \<and>
        destinationPath (the (h' p)) = filepath_Join [''n1'', destinationPath (the (TestCollect_store p))] \<and>
        (\<forall>cx options. collect (the (h' p)) cx options
                            = collect (the (TestCollect_store p)) (client_WithNode cx ''n1'') options)"
    "\<forall>p. p \<notin> set [2::nat] \<longrightarrow> h' p = TestCollect_store p"
    by blast
  from h'(2) have 1: "source (the (h' 2)) = ''n1''"
    and "destinationPath (the (h' 2)) = filepath_Join [''n1'', destinationPath (the (TestCollect_store 2))]"
    by simp_all
  then have 2: "destinationPath (the (h' 2)) = ''n1/1''"
    by (simp add: TestCollect_store_def NewCollector_def Join_n1_1)
  from h'(3) have 3: "h' 0 = TestCollect_store 0" by simp
  have c: "TestCollect_cols = Inr ?cols" by (rule TestCollect_cols_eq)
  have i: "?init = Inr ?a" by (simp add: run_defs scope_body_def)
  have e: "exec ?es ?a = Some ?b"
    by (simp add: run_defs scope_body_def eval_nat_numeral Join_n1_1)
  have m: "mainpc ?b = MReturned None" and l: "ctx_err (ctx ?b) = None"
    by (simp_all add: run_defs scope_body_def eval_nat_numeral Join_n1_1)
  have ar: "Archive (test_options 5 None) = testArchive" by (simp add: test_options_def)
  from C7_WithNode [of "[2]" TestCollect_store "''n1''", THEN conjunct2, rule_format,
      of ?cols background "test_options 5 None" ?a ?b None] c i ar reachI [OF e] m l
  have 4: "sink ?b ''n1/1'' = Some ''another'' \<and> sink ?b ''1'' = Some ''something'' \<and>
      totals ?b ''n1'' = Some 1"
    by blast
  from h'(1) 1 2 3 c i e m l 4 show ?thesis by blast
qed

end
